theory Spec2Isabelle
  imports Complex_Main "HOL-Library.AList" "HOL-Library.Sublist" "HOL-Library.Log_Nat"
begin

section \<open>The household ledger of app.py\<close>

text \<open>
  The program keeps one JSON document with four collections (tasks, bills, shopping,
  furniture) in \<^verbatim>\<open>st.session_state.data\<close>, a shopping cart and a pending furniture
  purchase beside it, and runs its operations on them. The model below embeds

  \<^item> \<^verbatim>\<open>get_context_data\<close> (lines 73-74),
  \<^item> \<^verbatim>\<open>calculate_debts\<close> (lines 77-101), with the arithmetic of Python's floats,
  \<^item> the body of the form \<^verbatim>\<open>add_bill\<close> (lines 186-207),
  \<^item> the removal of a shopping item (lines 246-249),
  \<^item> the body of the form \<^verbatim>\<open>checkout\<close> with its gate (lines 287-326),
  \<^item> the form \<^verbatim>\<open>add_furn\<close> (lines 334-349), the buttons that start a furniture
    purchase (lines 352-365) and the body of the form \<^verbatim>\<open>furn_checkout\<close> (lines 370-400),
  \<^item> the session states the page can reach through these.

  Modelling decisions.

  \<^item> Every entity is a Python dict used as a struct; it is a record here, and the
    equality of records is the equality \<^verbatim>\<open>==\<close> of dicts (field by field). The
    field \<^verbatim>\<open>'context'\<close> is called \<open>ctx\<close>, the source's name being reserved in
    Isabelle. Documents are taken to be well formed: every entity has all the fields
    the program writes when it creates one.
  \<^item> Amounts, prices and estimates come out of \<^verbatim>\<open>st.number_input\<close> with an integer
    step or an integer value, so they are Python ints: \<open>int\<close>. The only arithmetic on
    them that leaves the integers is the true division of \<^verbatim>\<open>calculate_debts\<close>, whose
    result is a Python float. Floats are IEEE 754 doubles: a finite one is the rational
    number it stands for, every operation rounds to the nearest double (ties to
    even), and the infinities and NaN are values of their own.
  \<^item> A Python dict is an association list in insertion order with distinct keys:
    \<open>map_of\<close> reads it, \<open>AList.update\<close> writes it (in place for a key that is there,
    at the end for a new one).
  \<^item> Exceptions are values: a function that can raise returns \<open>py_error + 'a\<close>.
  \<^item> The current date, the active mode and what the user entered in a form are
    arguments of the operation.
  \<^item> \<^verbatim>\<open>save_data\<close> writes the document to the sheet and \<^verbatim>\<open>st.rerun\<close> redraws the page;
    neither changes the session state, and neither is modelled.
\<close>

subsection \<open>Configuration\<close>

definition ROOMIES :: "string list" where
  "ROOMIES = [''Ale'', ''Ferb'', ''Fandi'']"

definition CATS_PARENTS :: "string list" where
  "CATS_PARENTS = [''Ale'', ''Fandi'']"

definition current_users :: "bool \<Rightarrow> string list" where
  "current_users is_cat_mode = (if is_cat_mode then CATS_PARENTS else ROOMIES)"

definition context_id :: "bool \<Rightarrow> string" where
  "context_id is_cat_mode = (if is_cat_mode then ''cat'' else ''house'')"

subsection \<open>Data model\<close>

datatype py_error = KeyError string | ZeroDivisionError | OverflowError | ValueError

record entity =
  ctx :: string

record task = entity +
  task_id :: string
  title :: string
  assignees :: "string list"
  status :: string
  importance :: int
  created :: string
  due :: string

record bill = entity +
  date :: string
  amount :: int
  category :: string
  description :: string
  payer :: string
  debtors :: "string list"

record shopping_item = entity +
  name :: string
  status :: string

record furniture_item = entity +
  name :: string
  estimate :: int
  date :: string
  status :: string

record document =
  tasks :: "task list"
  bills :: "bill list"
  shopping :: "shopping_item list"
  furniture :: "furniture_item list"

type_synonym cart = "(string \<times> int) list"

text \<open>
  The session state. \<open>temp_furn_buy\<close> holds a reference to a dict that is an element
  of \<^verbatim>\<open>data['furniture']\<close> (line 365 stores the very object the list holds, and the
  furniture list only grows): the reference is the position of that object in the list.
\<close>

record session =
  data :: document
  shopping_cart :: cart
  temp_furn_buy :: "nat option"

subsection \<open>The context filter (lines 73-74)\<close>

definition get_context_data :: "string \<Rightarrow> 'a entity_scheme list \<Rightarrow> 'a entity_scheme list" where
  "get_context_data cid xs = [x \<leftarrow> xs. ctx x = cid]"

subsection \<open>Python floats\<close>

text \<open>
  A finite double is \<open>Fin x\<close> with \<open>x\<close> the rational it stands for; the two zeros of
  IEEE 754 are the one value \<open>Fin 0\<close> (the program never divides by a balance and
  never looks at the sign of a zero). The int 0 that starts a balance is \<open>Fin 0\<close> too:
  Python converts it exactly when it meets a float, and compares the two equal.
\<close>

datatype pyfloat = Fin rat | PInf | NInf | NaN

text \<open>\<open>ilog2 x\<close> is the exponent \<open>e\<close> with \<open>2^e \<le> x < 2^(e+1)\<close>, for a positive \<open>x\<close>.\<close>

definition ilog2 :: "rat \<Rightarrow> int" where
  "ilog2 x = (let (p, q) = quotient_of x; d = bitlen p - bitlen q
              in if 2 powi d \<le> x then d else d - 1)"

definition round_half_even :: "rat \<Rightarrow> int" where
  "round_half_even y =
     (let f = \<lfloor>y\<rfloor>; d = y - of_int f
      in if d < 1/2 then f else if 1/2 < d then f + 1 else if even f then f else f + 1)"

text \<open>
  The doubles around a positive \<open>a\<close> are the multiples of \<open>2^q\<close>, where \<open>q\<close> is the
  exponent of \<open>a\<close> less the 52 fraction bits, and at least -1074 (the subnormal
  numbers).
\<close>

definition spacing_exp :: "rat \<Rightarrow> int" where
  "spacing_exp a = max (ilog2 a) (- 1022) - 52"

definition round_mag :: "rat \<Rightarrow> rat" where
  "round_mag a = of_int (round_half_even (a / 2 powi spacing_exp a)) * 2 powi spacing_exp a"

text \<open>
  Rounding to the nearest double, ties to even; \<open>None\<close> when the rounded magnitude is
  beyond the largest double (it would be \<open>2^1024\<close> or more).
\<close>

definition round_double :: "rat \<Rightarrow> rat option" where
  "round_double x =
     (if x = 0 then Some 0
      else if 2 powi 1024 \<le> round_mag \<bar>x\<bar> then None
      else Some (sgn x * round_mag \<bar>x\<bar>))"

fun fneg :: "pyfloat \<Rightarrow> pyfloat" where
  "fneg (Fin x) = Fin (- x)"
| "fneg PInf = NInf"
| "fneg NInf = PInf"
| "fneg NaN = NaN"

text \<open>\<^verbatim>\<open>x + y\<close> on floats: never raises; a sum too large is an infinity.\<close>

fun fadd :: "pyfloat \<Rightarrow> pyfloat \<Rightarrow> pyfloat" where
  "fadd (Fin x) (Fin y) =
     (case round_double (x + y) of
        Some r \<Rightarrow> Fin r
      | None \<Rightarrow> if 0 < x + y then PInf else NInf)"
| "fadd NaN y = NaN"
| "fadd x NaN = NaN"
| "fadd PInf NInf = NaN"
| "fadd NInf PInf = NaN"
| "fadd PInf y = PInf"
| "fadd x PInf = PInf"
| "fadd NInf y = NInf"
| "fadd x NInf = NInf"

subsection \<open>The debt ledger (lines 77-101)\<close>

type_synonym balances = "(string \<times> pyfloat) list"

text \<open>\<^verbatim>\<open>balances.keys()\<close>.\<close>

definition dict_keys :: "('k \<times> 'v) list \<Rightarrow> 'k list" where
  "dict_keys d = map fst d"

text \<open>\<^verbatim>\<open>{u: 0 for u in current_users}\<close>: one key per user, in the order of first occurrence.\<close>

definition init_balances :: "string list \<Rightarrow> balances" where
  "init_balances us = fold (\<lambda>u bal. AList.update u (Fin 0) bal) us []"

text \<open>
  \<^verbatim>\<open>amount / len(debtors)\<close> on two ints: Python raises ZeroDivisionError on a zero
  divisor, returns the double nearest to the exact quotient, and raises OverflowError
  when that quotient is too large for a double.
\<close>

definition py_truediv :: "int \<Rightarrow> nat \<Rightarrow> py_error + pyfloat" where
  "py_truediv a n =
     (if n = 0 then Inl ZeroDivisionError
      else (case round_double (of_int a / of_nat n) of
              None \<Rightarrow> Inl OverflowError
            | Some r \<Rightarrow> Inr (Fin r)))"

text \<open>
  \<^verbatim>\<open>balances[k] += delta\<close>: reads the key (KeyError when it is absent), adds in floating
  point, then writes the key. \<^verbatim>\<open>balances[k] -= delta\<close> is the same with \<open>fneg delta\<close>:
  in IEEE 754 arithmetic \<open>x - y\<close> and \<open>x + (-y)\<close> are the same operation.
\<close>

definition add_to :: "string \<Rightarrow> pyfloat \<Rightarrow> balances \<Rightarrow> py_error + balances" where
  "add_to k delta bal =
     (case map_of bal k of
        None \<Rightarrow> Inl (KeyError k)
      | Some v \<Rightarrow> Inr (AList.update k (fadd v delta) bal))"

text \<open>The body of the loop over the debtors of one bill (lines 95-99).\<close>

definition debtor_step :: "string \<Rightarrow> pyfloat \<Rightarrow> string \<Rightarrow> balances \<Rightarrow> py_error + balances" where
  "debtor_step p split_amount d bal =
     (if d \<noteq> p then
        (case add_to d (fneg split_amount) bal of
           Inl e \<Rightarrow> Inl e
         | Inr bal1 \<Rightarrow> add_to p split_amount bal1)
      else Inr bal)"

fun debtors_loop :: "string \<Rightarrow> pyfloat \<Rightarrow> string list \<Rightarrow> balances \<Rightarrow> py_error + balances" where
  "debtors_loop p split_amount [] bal = Inr bal"
| "debtors_loop p split_amount (d # ds) bal =
     (case debtor_step p split_amount d bal of
        Inl e \<Rightarrow> Inl e
      | Inr bal1 \<Rightarrow> debtors_loop p split_amount ds bal1)"

text \<open>The body of the loop over the bills (lines 83-99).\<close>

definition bill_step :: "bill \<Rightarrow> balances \<Rightarrow> py_error + balances" where
  "bill_step b bal =
     (if debtors b = [] then Inr bal
      else
        (case py_truediv (amount b) (length (debtors b)) of
           Inl e \<Rightarrow> Inl e
         | Inr split_amount \<Rightarrow> debtors_loop (payer b) split_amount (debtors b) bal))"

fun bills_loop :: "bill list \<Rightarrow> balances \<Rightarrow> py_error + balances" where
  "bills_loop [] bal = Inr bal"
| "bills_loop (b # bs) bal =
     (case bill_step b bal of
        Inl e \<Rightarrow> Inl e
      | Inr bal1 \<Rightarrow> bills_loop bs bal1)"

definition calculate_debts :: "string list \<Rightarrow> bill list \<Rightarrow> py_error + balances" where
  "calculate_debts users bills_list = bills_loop bills_list (init_balances users)"

text \<open>
  \<^verbatim>\<open>sum(balances.values())\<close>: Python starts from the int 0 and adds the values from
  left to right, each addition rounding.
\<close>

definition total_balance :: "balances \<Rightarrow> pyfloat" where
  "total_balance bal = foldl fadd (Fin 0) (map snd bal)"

text \<open>
  The sum of the balances as numbers, without the rounding of the additions; it is
  there when every balance is finite.
\<close>

fun exact_values :: "balances \<Rightarrow> rat list option" where
  "exact_values [] = Some []"
| "exact_values ((k, Fin x) # bal) =
     (case exact_values bal of None \<Rightarrow> None | Some xs \<Rightarrow> Some (x # xs))"
| "exact_values ((k, v) # bal) = None"

definition exact_total :: "balances \<Rightarrow> rat option" where
  "exact_total bal = map_option sum_list (exact_values bal)"

text \<open>The share of a bill is too large for a float.\<close>

definition share_overflows :: "bill \<Rightarrow> bool" where
  "share_overflows b =
     (debtors b \<noteq> [] \<and> py_truediv (amount b) (length (debtors b)) = Inl OverflowError)"

text \<open>
  The number of rounded operations behind a sum of balances: one addition per
  participant, and for every bill one division and two additions per debtor.
\<close>

definition rounding_steps :: "string list \<Rightarrow> bill list \<Rightarrow> nat" where
  "rounding_steps users bills_list =
     length users + sum_list (map (\<lambda>b. 2 * length (debtors b) + 1) bills_list)"

definition total_amount :: "bill list \<Rightarrow> int" where
  "total_amount bills_list = sum_list (map (\<lambda>b. \<bar>amount b\<bar>) bills_list)"

subsection \<open>Manual bill entry (lines 186-207)\<close>

text \<open>
  \<^verbatim>\<open>b_amount = st.number_input("Monto", min_value=0, step=100)\<close>: the widget returns an
  int that is at least its \<^verbatim>\<open>min_value\<close>, so the amount the form receives is a natural
  number. The argument \<open>cid\<close> is the value of the global \<^verbatim>\<open>context_id\<close>.
\<close>

definition add_bill ::
  "string \<Rightarrow> string \<Rightarrow> string \<Rightarrow> nat \<Rightarrow> string \<Rightarrow> string list \<Rightarrow> string \<Rightarrow> session \<Rightarrow> session" where
  "add_bill cid b_desc b_cat b_amount b_payer b_debtors b_date s =
     (let new_bill = \<lparr>ctx = cid, bill.date = b_date, amount = int b_amount, category = b_cat,
                       description = b_desc, payer = b_payer, debtors = b_debtors\<rparr>
      in s\<lparr>data := (data s)\<lparr>bills := bills (data s) @ [new_bill]\<rparr>\<rparr>)"

subsection \<open>Removing a shopping item (lines 246-249)\<close>

text \<open>
  \<^verbatim>\<open>list.remove(x)\<close> deletes the first element equal to \<open>x\<close> and raises ValueError
  when there is none.
\<close>

fun list_remove :: "'a \<Rightarrow> 'a list \<Rightarrow> py_error + 'a list" where
  "list_remove x [] = Inl ValueError"
| "list_remove x (y # ys) =
     (if y = x then Inr ys
      else (case list_remove x ys of
              Inl e \<Rightarrow> Inl e
            | Inr zs \<Rightarrow> Inr (y # zs)))"

definition remove_shopping_item :: "shopping_item \<Rightarrow> session \<Rightarrow> py_error + session" where
  "remove_shopping_item item s =
     (case list_remove item (shopping (data s)) of
        Inl e \<Rightarrow> Inl e
      | Inr xs \<Rightarrow> Inr (s\<lparr>data := (data s)\<lparr>shopping := xs\<rparr>\<rparr>))"

subsection \<open>Checkout (lines 287-326)\<close>

text \<open>
  \<^verbatim>\<open>str(v)\<close> of an int: decimal digits, with a minus sign when negative.
  \<open>digit_char\<close> is used below 10 only.
\<close>

definition digit_char :: "nat \<Rightarrow> char" where
  "digit_char n = ''0123456789'' ! n"

function str_nat :: "nat \<Rightarrow> string" where
  "str_nat n = (if n < 10 then [digit_char n] else str_nat (n div 10) @ [digit_char (n mod 10)])"
  by pat_completeness auto
termination
  by (relation "measure (\<lambda>n. n)") auto

declare str_nat.simps [simp del]

definition str_int :: "int \<Rightarrow> string" where
  "str_int i = (if i < 0 then CHR ''-'' # str_nat (nat (- i)) else str_nat (nat i))"

text \<open>\<^verbatim>\<open>sep.join(xs)\<close>.\<close>

fun join :: "string \<Rightarrow> string list \<Rightarrow> string" where
  "join sep [] = []"
| "join sep [x] = x"
| "join sep (x # y # ys) = x @ sep @ join sep (y # ys)"

text \<open>\<^verbatim>\<open>sum(st.session_state.shopping_cart.values())\<close> (line 287).\<close>

definition cart_total :: "cart \<Rightarrow> int" where
  "cart_total c = sum_list (map snd c)"

text \<open>\<^verbatim>\<open>list(st.session_state.shopping_cart.keys())\<close> (line 288).\<close>

definition cart_items :: "cart \<Rightarrow> string list" where
  "cart_items c = dict_keys c"

text \<open>Line 300.\<close>

definition desc_str :: "cart \<Rightarrow> string" where
  "desc_str c = join '', '' (map (\<lambda>(k, v). k @ '' ('' @ str_int v @ '')'') c)"

text \<open>The inner loop of lines 317-319, for one item name of the cart.\<close>

fun mark_have :: "string \<Rightarrow> string \<Rightarrow> shopping_item list \<Rightarrow> shopping_item list" where
  "mark_have item_name cid [] = []"
| "mark_have item_name cid (db_item # rest) =
     (if shopping_item.name db_item = item_name \<and> ctx db_item = cid
      then db_item\<lparr>shopping_item.status := ''have''\<rparr>
      else db_item) # mark_have item_name cid rest"

text \<open>The outer loop of lines 315-319, over the item names of the cart.\<close>

fun update_inventory :: "string list \<Rightarrow> string \<Rightarrow> shopping_item list \<Rightarrow> shopping_item list" where
  "update_inventory [] cid db = db"
| "update_inventory (item_name # names) cid db =
     update_inventory names cid (mark_have item_name cid db)"

text \<open>
  The form is drawn only under \<^verbatim>\<open>if cart_total > 0\<close> (line 293); when it is not drawn
  nothing can be submitted and the state stays as it is. Nothing in the form looks at
  \<^verbatim>\<open>c_debtors\<close> before the bill is appended.
\<close>

definition checkout :: "string \<Rightarrow> string \<Rightarrow> string \<Rightarrow> string list \<Rightarrow> session \<Rightarrow> session" where
  "checkout cid today c_payer c_debtors s =
     (if cart_total (shopping_cart s) > 0 then
        (let new_bill = \<lparr>ctx = cid, bill.date = today, amount = cart_total (shopping_cart s),
                          category = ''Supermercado'', description = desc_str (shopping_cart s),
                          payer = c_payer, debtors = c_debtors\<rparr>;
             d1 = (data s)\<lparr>bills := bills (data s) @ [new_bill]\<rparr>;
             d2 = d1\<lparr>shopping := update_inventory (cart_items (shopping_cart s)) cid (shopping d1)\<rparr>
         in s\<lparr>data := d2, shopping_cart := []\<rparr>)
      else s)"

subsection \<open>Furniture purchase (lines 363-400)\<close>

text \<open>
  Lines 334-349. \<^verbatim>\<open>f_date\<close> is the date the user picked, already as text, or nothing.
\<close>

definition add_furn :: "string \<Rightarrow> string \<Rightarrow> int \<Rightarrow> string option \<Rightarrow> session \<Rightarrow> session" where
  "add_furn cid f_name f_est f_date s =
     (let new_f = \<lparr>ctx = cid, furniture_item.name = f_name, estimate = f_est,
                    furniture_item.date = (case f_date of Some d \<Rightarrow> d | None \<Rightarrow> ''Sin fecha''),
                    furniture_item.status = ''wish''\<rparr>
      in s\<lparr>data := (data s)\<lparr>furniture := furniture (data s) @ [new_f]\<rparr>\<rparr>)"

text \<open>
  Lines 352-365. \<^verbatim>\<open>wishes\<close> holds the items of the active context with status
  \<^verbatim>\<open>'wish'\<close>, in list order; they are objects of \<^verbatim>\<open>data['furniture']\<close>, hence positions
  of that list here.
\<close>

definition wishes :: "string \<Rightarrow> furniture_item list \<Rightarrow> nat list" where
  "wishes cid fs =
     [j \<leftarrow> [j \<leftarrow> [0..<length fs]. ctx (fs ! j) = cid]. furniture_item.status (fs ! j) = ''wish'']"

text \<open>
  The loop draws one button "Comprar" per wish, with the key \<^verbatim>\<open>buyf_\<close> followed by the
  item's name. Streamlit does not accept two widgets with the same key in one run of
  the script: the call of \<^verbatim>\<open>st.button\<close> with a key already used raises, and the script
  stops there. \<open>drawn_buttons keys fs js\<close> are the positions whose button is drawn,
  \<open>keys\<close> being the keys used so far.
\<close>

fun drawn_buttons :: "string list \<Rightarrow> furniture_item list \<Rightarrow> nat list \<Rightarrow> nat list" where
  "drawn_buttons keys fs [] = []"
| "drawn_buttons keys fs (j # js) =
     (let key = ''buyf_'' @ furniture_item.name (fs ! j)
      in if key \<in> set keys then [] else j # drawn_buttons (key # keys) fs js)"

text \<open>
  Line 365 is the only assignment of \<^verbatim>\<open>temp_furn_buy\<close>. It runs when the user has
  clicked the button of the item at position \<open>i\<close>; only a drawn button can be
  clicked, and on the run that follows the click the loop draws the same buttons and
  reaches that one. When there is no such button the result is \<open>None\<close>: the page
  has no such step.
\<close>

definition begin_furniture_purchase :: "string \<Rightarrow> nat \<Rightarrow> session \<Rightarrow> session option" where
  "begin_furniture_purchase cid i s =
     (if i \<in> set (drawn_buttons [] (furniture (data s)) (wishes cid (furniture (data s))))
      then Some (s\<lparr>temp_furn_buy := Some i\<rparr>)
      else None)"

text \<open>
  Lines 393-395. \<^verbatim>\<open>item\<close> is the object at position \<open>i\<close> of the list the loop walks,
  so \<^verbatim>\<open>db_item == item\<close> compares the dict at position \<open>j\<close> with the dict at position
  \<open>i\<close> as they are when the loop reaches \<open>j\<close>: once the loop has marked position \<open>i\<close>
  itself, \<^verbatim>\<open>item\<close> reads \<^verbatim>\<open>'bought'\<close>. The position \<open>i\<close> is below the length of the
  list in every state the page can reach (\<open>reachable\<close> below).
\<close>

definition mark_bought_at :: "nat \<Rightarrow> nat \<Rightarrow> furniture_item list \<Rightarrow> furniture_item list" where
  "mark_bought_at i j fs =
     (if fs ! j = fs ! i then fs[j := (fs ! j)\<lparr>furniture_item.status := ''bought''\<rparr>] else fs)"

definition mark_bought :: "nat \<Rightarrow> furniture_item list \<Rightarrow> furniture_item list" where
  "mark_bought i fs = fold (mark_bought_at i) [0..<length fs] fs"

text \<open>
  \<^verbatim>\<open>real_price = st.number_input("Precio Final", value=item['estimate'])\<close> has no
  \<^verbatim>\<open>min_value\<close>: the form receives any int.
\<close>

definition furn_checkout :: "string \<Rightarrow> string \<Rightarrow> int \<Rightarrow> string \<Rightarrow> string list \<Rightarrow> session \<Rightarrow> session" where
  "furn_checkout cid today real_price p_payer p_debtors s =
     (case temp_furn_buy s of
        None \<Rightarrow> s
      | Some i \<Rightarrow>
          (let item = furniture (data s) ! i;
               new_bill = \<lparr>ctx = cid, bill.date = today, amount = real_price,
                            category = ''Muebles'',
                            description = ''Compra Mueble: '' @ furniture_item.name item,
                            payer = p_payer, debtors = p_debtors\<rparr>;
               d1 = (data s)\<lparr>bills := bills (data s) @ [new_bill]\<rparr>;
               d2 = d1\<lparr>furniture := mark_bought i (furniture d1)\<rparr>
           in s\<lparr>data := d2, temp_furn_buy := None\<rparr>))"

subsection \<open>The states of a session\<close>

text \<open>
  A session starts with the document that \<^verbatim>\<open>load_data\<close> returns, whatever the sheet
  holds, an empty cart and no pending purchase (lines 55-58). Every later state comes
  out of a form or a button of the page. The forms and buttons for tasks, for the
  shopping list and for the cart (lines 142-170 and 235-281) change the tasks, the
  shopping items and the cart only; they are taken together in the last rule, which
  allows any change of these three.
\<close>

inductive reachable :: "session \<Rightarrow> bool" where
  reach_load: "reachable \<lparr>data = d, shopping_cart = [], temp_furn_buy = None\<rparr>"
| reach_add_bill:
    "reachable s \<Longrightarrow> reachable (add_bill cid b_desc b_cat b_amount b_payer b_debtors b_date s)"
| reach_remove:
    "reachable s \<Longrightarrow> remove_shopping_item item s = Inr s' \<Longrightarrow> reachable s'"
| reach_checkout:
    "reachable s \<Longrightarrow> reachable (checkout cid today c_payer c_debtors s)"
| reach_add_furn:
    "reachable s \<Longrightarrow> reachable (add_furn cid f_name f_est f_date s)"
| reach_begin:
    "reachable s \<Longrightarrow> begin_furniture_purchase cid i s = Some s' \<Longrightarrow> reachable s'"
| reach_furn_checkout:
    "reachable s \<Longrightarrow> reachable (furn_checkout cid today real_price p_payer p_debtors s)"
| reach_other:
    "reachable s \<Longrightarrow>
     reachable (s\<lparr>data := (data s)\<lparr>tasks := ts, shopping := sh\<rparr>, shopping_cart := c\<rparr>)"

subsection \<open>Notions of the proofs about floats\<close>

text \<open>Every double is a multiple of the smallest positive one, \<open>2^-1074\<close>.\<close>

definition on_grid :: "rat \<Rightarrow> bool" where
  "on_grid x = (\<exists>m::int. x = of_int m * 2 powi (- 1074))"

subsection \<open>Example inputs\<close>

definition ex_bills :: "bill list" where
  "ex_bills =
    [\<lparr>ctx = ''house'', bill.date = ''2024-01-01'', amount = 300, category = ''Comida'',
      description = ''pizza'', payer = ''Ale'', debtors = [''Ale'', ''Ferb'', ''Fandi'']\<rparr>,
     \<lparr>ctx = ''house'', bill.date = ''2024-01-02'', amount = 150, category = ''Hogar'',
      description = ''soap'', payer = ''Ferb'', debtors = [''Ale'', ''Ferb'', ''Fandi'']\<rparr>]"

definition self_bill :: bill where
  "self_bill = \<lparr>ctx = ''house'', bill.date = ''2024-01-03'', amount = 900, category = ''Pago Deuda'',
      description = ''own lunch'', payer = ''Ale'', debtors = [''Ale'']\<rparr>"

definition empty_bill :: bill where
  "empty_bill = \<lparr>ctx = ''house'', bill.date = ''2024-01-04'', amount = 700, category = ''Salida'',
      description = ''nobody'', payer = ''Fandi'', debtors = []\<rparr>"

definition outsider_bill :: bill where
  "outsider_bill = \<lparr>ctx = ''house'', bill.date = ''2024-01-05'', amount = 250, category = ''Comida'',
      description = ''guest'', payer = ''Zed'', debtors = [''Zed'']\<rparr>"

definition guest_debtor_bill :: bill where
  "guest_debtor_bill = \<lparr>ctx = ''house'', bill.date = ''2024-01-06'', amount = 250, category = ''Comida'',
      description = ''guest'', payer = ''Ale'', debtors = [''Ale'', ''Zed'']\<rparr>"

definition ex_shopping :: "shopping_item list" where
  "ex_shopping =
     [\<lparr>ctx = ''house'', shopping_item.name = ''milk'', shopping_item.status = ''buy''\<rparr>,
      \<lparr>ctx = ''cat'', shopping_item.name = ''milk'', shopping_item.status = ''buy''\<rparr>,
      \<lparr>ctx = ''house'', shopping_item.name = ''bread'', shopping_item.status = ''buy''\<rparr>,
      \<lparr>ctx = ''house'', shopping_item.name = ''eggs'', shopping_item.status = ''buy''\<rparr>,
      \<lparr>ctx = ''cat'', shopping_item.name = ''bread'', shopping_item.status = ''have''\<rparr>]"

definition ex_session :: session where
  "ex_session =
     \<lparr>data = \<lparr>tasks = [], bills = ex_bills, shopping = ex_shopping, furniture = []\<rparr>,
      shopping_cart = [(''milk'', 100), (''bread'', 50)],
      temp_furn_buy = None\<rparr>"

definition ex_zero_cart_session :: session where
  "ex_zero_cart_session = ex_session\<lparr>shopping_cart := [(''milk'', 0), (''bread'', 0)]\<rparr>"

definition sofa :: furniture_item where
  "sofa = \<lparr>ctx = ''house'', furniture_item.name = ''Sofa'', estimate = 5000,
            furniture_item.date = ''Sin fecha'', furniture_item.status = ''wish''\<rparr>"

definition lamp :: furniture_item where
  "lamp = \<lparr>ctx = ''house'', furniture_item.name = ''Lamp'', estimate = 300,
            furniture_item.date = ''2024-03-01'', furniture_item.status = ''wish''\<rparr>"

definition ex_furn_session :: session where
  "ex_furn_session =
     \<lparr>data = \<lparr>tasks = [], bills = ex_bills, shopping = ex_shopping,
               furniture = [sofa, lamp]\<rparr>,
      shopping_cart = [],
      temp_furn_buy = Some 0\<rparr>"

definition huge_self_bill :: bill where
  "huge_self_bill = \<lparr>ctx = ''house'', bill.date = ''2024-01-07'', amount = 2 ^ 1024,
      category = ''Pago Deuda'', description = ''typo'', payer = ''Ale'', debtors = [''Ale'']\<rparr>"

definition pending_first :: "session \<Rightarrow> bool" where
  "pending_first s =
     (case temp_furn_buy s of
        None \<Rightarrow> True
      | Some i \<Rightarrow> i < length (furniture (data s)) \<and>
                  (\<forall>j < i. furniture (data s) ! j \<noteq> furniture (data s) ! i))"

definition twin_document :: document where
  "twin_document = \<lparr>tasks = [], bills = ex_bills, shopping = ex_shopping, furniture = [sofa, sofa]\<rparr>"

definition ex_twin_session :: session where
  "ex_twin_session = \<lparr>data = twin_document, shopping_cart = [], temp_furn_buy = None\<rparr>"

section \<open>Rounding to a double\<close>

subsection \<open>Exponents and nearest integers\<close>

lemma bitlen_rat_bounds:
  assumes "0 < (p::int)"
  shows "(2::rat) powi (bitlen p - 1) \<le> of_int p" and "of_int p < (2::rat) powi (bitlen p)"
proof -
  from bitlen_bounds[OF assms] have a: "2 ^ nat (bitlen p - 1) \<le> p" and b: "p < 2 ^ nat (bitlen p)"
    by auto
  from assms have g: "1 \<le> bitlen p" by (simp add: bitlen_alt_def)
  from a have "(of_int (2 ^ nat (bitlen p - 1)) :: rat) \<le> of_int p" by (simp only: of_int_le_iff)
  then show "(2::rat) powi (bitlen p - 1) \<le> of_int p"
    using g by (simp add: power_int_def)
  from b have "(of_int p :: rat) < of_int (2 ^ nat (bitlen p))" by (simp only: of_int_less_iff)
  then show "of_int p < (2::rat) powi (bitlen p)"
    using g by (simp add: power_int_def)
qed

lemma ilog2_bounds:
  assumes "0 < x"
  shows "2 powi (ilog2 x) \<le> x" and "x < 2 powi (ilog2 x + 1)"
proof -
  obtain p q where pq: "quotient_of x = (p, q)" by (cases "quotient_of x")
  then have q: "0 < q" and x: "x = of_int p / of_int q"
    by (simp_all add: quotient_of_denom_pos quotient_of_div)
  from assms x q have p: "0 < p" by (simp add: zero_less_divide_iff)
  let ?d = "bitlen p - bitlen q"
  note bp = bitlen_rat_bounds[OF p] and bq = bitlen_rat_bounds[OF q]
  have qpos: "(0::rat) < of_int q" using q by simp
  have up: "x < 2 powi (?d + 1)"
  proof -
    have "x < 2 powi (bitlen p) / of_int q"
      unfolding x using bp(2) qpos by (simp add: divide_strict_right_mono)
    also have "\<dots> \<le> 2 powi (bitlen p) / 2 powi (bitlen q - 1)"
      using bq(1) qpos by (intro divide_left_mono) (auto intro!: mult_pos_pos)
    also have "\<dots> = 2 powi (bitlen p - (bitlen q - 1))"
      by (rule power_int_diff[symmetric]) simp
    also have "\<dots> = 2 powi (?d + 1)"
      by (rule arg_cong[where f="power_int 2"]) simp
    finally show ?thesis .
  qed
  have lo: "2 powi (?d - 1) < x"
  proof -
    have "(2::rat) powi (?d - 1) = 2 powi ((bitlen p - 1) - bitlen q)"
      by (rule arg_cong[where f="power_int 2"]) simp
    also have "\<dots> = 2 powi (bitlen p - 1) / (2::rat) powi (bitlen q)"
      by (rule power_int_diff) simp
    also have "\<dots> < 2 powi (bitlen p - 1) / of_int q"
      using bq(2) qpos by (intro divide_strict_left_mono) (auto intro!: mult_pos_pos)
    also have "\<dots> \<le> x"
      unfolding x using bp(1) qpos by (simp add: divide_right_mono)
    finally show ?thesis .
  qed
  show "2 powi (ilog2 x) \<le> x"
    using lo by (auto simp: ilog2_def pq Let_def)
  show "x < 2 powi (ilog2 x + 1)"
    using up by (auto simp: ilog2_def pq Let_def not_le)
qed

lemma round_half_even_error: "\<bar>of_int (round_half_even y) - y\<bar> \<le> 1/2"
proof -
  have "of_int \<lfloor>y\<rfloor> \<le> y" "y < of_int \<lfloor>y\<rfloor> + 1" by linarith+
  then show ?thesis
    by (auto simp: round_half_even_def Let_def abs_le_iff)
qed

lemma round_half_even_of_int [simp]: "round_half_even (of_int m) = m"
  by (simp add: round_half_even_def)

lemma round_half_even_nonneg: "0 \<le> y \<Longrightarrow> 0 \<le> round_half_even y"
proof -
  assume "0 \<le> y"
  then have "0 \<le> \<lfloor>y\<rfloor>" by simp
  then show ?thesis by (auto simp: round_half_even_def Let_def)
qed

lemma pow2_pos [simp]: "(0::rat) < 2 powi e"
  by (simp add: power_int_def)

lemma pow2_mono: "a \<le> b \<Longrightarrow> (2::rat) powi a \<le> 2 powi b"
  by (rule power_int_increasing) simp_all

lemma pow2_less_cancel: "(2::rat) powi a < 2 powi b \<Longrightarrow> a < b"
proof (rule ccontr)
  assume l: "(2::rat) powi a < 2 powi b" and "\<not> a < b"
  then have "b \<le> a" by simp
  then have "(2::rat) powi b \<le> 2 powi a" by (rule pow2_mono)
  with l show False by simp
qed

lemma pow2_split: "(2::rat) powi (a + b) = 2 powi a * 2 powi b"
  by (rule power_int_add) simp

lemma pow2_int_mult:
  assumes "g \<le> h"
  shows "\<exists>k::int. (2::rat) powi h = of_int k * 2 powi g \<and> 0 < k"
proof -
  have "(2::rat) powi h = 2 powi ((h - g) + g)" by simp
  also have "\<dots> = 2 powi (h - g) * 2 powi g" by (rule pow2_split)
  also have "(2::rat) powi (h - g) = of_int (2 ^ nat (h - g))"
    using assms by (simp add: power_int_def)
  finally have "(2::rat) powi h = of_int (2 ^ nat (h - g)) * 2 powi g" .
  moreover have "(0::int) < 2 ^ nat (h - g)" by simp
  ultimately show ?thesis by blast
qed

lemma round_mag_error: "\<bar>round_mag a - a\<bar> \<le> 2 powi spacing_exp a / 2"
proof -
  let ?q = "2 powi spacing_exp a :: rat"
  let ?n = "round_half_even (a / ?q)"
  have "\<bar>of_int ?n - a / ?q\<bar> \<le> 1/2" by (rule round_half_even_error)
  then have "\<bar>of_int ?n - a / ?q\<bar> * ?q \<le> 1/2 * ?q"
    by (rule mult_right_mono) simp
  moreover have "\<bar>of_int ?n - a / ?q\<bar> * ?q = \<bar>of_int ?n * ?q - a\<bar>"
  proof -
    have "\<bar>of_int ?n - a / ?q\<bar> * ?q = \<bar>(of_int ?n - a / ?q) * ?q\<bar>"
      by (simp add: abs_mult)
    also have "(of_int ?n - a / ?q) * ?q = of_int ?n * ?q - a"
      by (simp add: left_diff_distrib)
    finally show ?thesis .
  qed
  ultimately show ?thesis by (simp add: round_mag_def)
qed

lemma round_mag_nonneg: "0 \<le> a \<Longrightarrow> 0 \<le> round_mag a"
  unfolding round_mag_def
  by (intro mult_nonneg_nonneg) (simp_all add: round_half_even_nonneg)

lemma round_mag_exact:
  assumes "a = of_int m * 2 powi g" and "spacing_exp a \<le> g"
  shows "round_mag a = a"
proof -
  define q where "q = spacing_exp a"
  from pow2_int_mult[OF assms(2)] obtain k :: int where
    k: "(2::rat) powi g = of_int k * 2 powi q" unfolding q_def by blast
  have a: "a = of_int (m * k) * 2 powi q"
    by (simp add: assms(1) k)
  then have "a / 2 powi q = of_int (m * k)" by simp
  then have "round_mag a = of_int (m * k) * 2 powi q"
    by (simp only: round_mag_def q_def[symmetric] round_half_even_of_int)
  with a show ?thesis by simp
qed

lemma round_mag_on_grid: "on_grid (round_mag a)"
proof -
  define q where "q = spacing_exp a"
  have "- 1074 \<le> q" by (simp add: q_def spacing_exp_def)
  from pow2_int_mult[OF this] obtain k :: int where
    k: "(2::rat) powi q = of_int k * 2 powi (- 1074)" by blast
  have "round_mag a = of_int (round_half_even (a / 2 powi q)) * 2 powi q"
    by (simp only: round_mag_def q_def)
  also have "\<dots> = of_int (round_half_even (a / 2 powi q) * k) * 2 powi (- 1074)"
    by (simp add: k)
  finally show ?thesis unfolding on_grid_def by blast
qed

lemma round_mag_relative:
  assumes "0 < a" and "- 1022 \<le> ilog2 a"
  shows "\<bar>round_mag a - a\<bar> \<le> a / 2 ^ 53"
proof -
  from assms(2) have q: "spacing_exp a = ilog2 a - 52" by (simp add: spacing_exp_def)
  have "(2::rat) powi spacing_exp a = 2 powi (ilog2 a) / 2 powi 52"
    unfolding q by (rule power_int_diff) simp
  also have "\<dots> \<le> a / 2 powi 52"
    using ilog2_bounds(1)[OF assms(1)] by (rule divide_right_mono) simp
  finally have "(2::rat) powi spacing_exp a / 2 \<le> a / 2 powi 52 / 2"
    by (rule divide_right_mono) simp
  also have "\<dots> = a / 2 ^ 53" by simp
  finally show ?thesis using round_mag_error[of a] by linarith
qed

lemma round_mag_subnormal:
  assumes "0 < a" and "ilog2 a < - 1022" and "on_grid a"
  shows "round_mag a = a"
proof -
  from assms(2) have q: "spacing_exp a = - 1074" by (simp add: spacing_exp_def)
  from assms(3) obtain m :: int where "a = of_int m * 2 powi (- 1074)"
    unfolding on_grid_def by blast
  then show ?thesis by (rule round_mag_exact) (simp add: q)
qed

lemma round_mag_below:
  assumes "0 < a" and "a < 2 powi 1023"
  shows "round_mag a < 2 powi 1024"
proof -
  from ilog2_bounds(1)[OF assms(1)] assms(2) have "(2::rat) powi ilog2 a < 2 powi 1023" by simp
  then have "ilog2 a < 1023" by (rule pow2_less_cancel)
  then have "spacing_exp a \<le> 1023" by (simp add: spacing_exp_def)
  then have "(2::rat) powi spacing_exp a \<le> 2 powi 1023" by (rule pow2_mono)
  then have "(2::rat) powi spacing_exp a / 2 \<le> 2 powi 1023 / 2" by (rule divide_right_mono) simp
  with round_mag_error[of a] have "round_mag a \<le> a + 2 powi 1023 / 2" by linarith
  also have "\<dots> < 2 powi 1023 + 2 powi 1023 / 2" using assms(2) by simp
  also have "\<dots> \<le> 2 powi 1023 + 2 powi 1023" by simp
  also have "\<dots> = (2::rat) powi 1023 * 2 powi 1" by simp
  also have "\<dots> = 2 powi (1023 + 1)" by (rule pow2_split[symmetric])
  finally show ?thesis by simp
qed

lemma round_double_ok:
  assumes "on_grid x \<or> 2 powi (- 1022) \<le> \<bar>x\<bar>" and "\<bar>x\<bar> < 2 powi 1023"
  shows "\<exists>r. round_double x = Some r \<and> on_grid r \<and> \<bar>r - x\<bar> \<le> \<bar>x\<bar> / 2 ^ 53"
proof (cases "x = 0")
  case True
  have "on_grid 0" unfolding on_grid_def by (rule exI[of _ 0]) simp
  with True show ?thesis by (simp add: round_double_def)
next
  case False
  let ?a = "\<bar>x\<bar>"
  from False have a: "0 < ?a" by simp
  have below: "round_mag ?a < 2 powi 1024" using a assms(2) by (rule round_mag_below)
  then have r: "round_double x = Some (sgn x * round_mag ?a)"
    using False by (simp add: round_double_def)
  have err: "\<bar>round_mag ?a - ?a\<bar> \<le> ?a / 2 ^ 53"
  proof (cases "- 1022 \<le> ilog2 ?a")
    case True
    with a show ?thesis by (rule round_mag_relative)
  next
    case low: False
    have "\<not> 2 powi (- 1022) \<le> ?a"
    proof
      assume "2 powi (- 1022) \<le> ?a"
      with ilog2_bounds(2)[OF a] have "(2::rat) powi (- 1022) < 2 powi (ilog2 ?a + 1)" by simp
      then have "- 1022 < ilog2 ?a + 1" by (rule pow2_less_cancel)
      with low show False by simp
    qed
    with assms(1) have "on_grid x" by blast
    then obtain m :: int where m: "x = of_int m * 2 powi (- 1074)" unfolding on_grid_def by blast
    have "?a = of_int \<bar>m\<bar> * 2 powi (- 1074)" unfolding m by (simp add: abs_mult)
    then have "on_grid ?a" unfolding on_grid_def by blast
    with a low have "round_mag ?a = ?a" by (intro round_mag_subnormal) simp_all
    then show ?thesis by simp
  qed
  have g: "on_grid (sgn x * round_mag ?a)"
  proof -
    from round_mag_on_grid[of ?a] obtain m :: int where
      m: "round_mag ?a = of_int m * 2 powi (- 1074)" unfolding on_grid_def by blast
    have "sgn x * round_mag ?a = of_int (sgn (if 0 < x then 1 else - 1) * m) * 2 powi (- 1074)"
      using False unfolding m by (simp add: sgn_if)
    then show ?thesis unfolding on_grid_def by blast
  qed
  have "\<bar>sgn x * round_mag ?a - x\<bar> = \<bar>round_mag ?a - ?a\<bar>"
    using False by (cases "0 < x") (simp_all add: sgn_if abs_if)
  with err r g show ?thesis by simp
qed

subsection \<open>Evaluating the rounding on numerals\<close>

lemma ilog2_eqI:
  assumes "0 < x" and "2 powi e \<le> x" and "x < 2 powi (e + 1)"
  shows "ilog2 x = e"
proof -
  note b = ilog2_bounds[OF assms(1)]
  from b(1) assms(3) have "(2::rat) powi ilog2 x < 2 powi (e + 1)" by simp
  then have "ilog2 x < e + 1" by (rule pow2_less_cancel)
  moreover from assms(2) b(2) have "(2::rat) powi e < 2 powi (ilog2 x + 1)" by simp
  then have "e < ilog2 x + 1" by (rule pow2_less_cancel)
  ultimately show ?thesis by simp
qed

lemma ilog2_fraction:
  assumes "0 < p" and "0 < q"
  shows "ilog2 (of_int p / of_int q) =
           (if 2 powi (bitlen p - bitlen q) * of_int q \<le> (of_int p :: rat)
            then bitlen p - bitlen q else bitlen p - bitlen q - 1)"
proof -
  let ?x = "of_int p / of_int q :: rat"
  let ?d = "bitlen p - bitlen q"
  have qpos: "(0::rat) < of_int q" and x: "0 < ?x" using assms by simp_all
  note bp = bitlen_rat_bounds[OF assms(1)] and bq = bitlen_rat_bounds[OF assms(2)]
  have up: "?x < 2 powi (?d + 1)"
  proof -
    have "?x < 2 powi (bitlen p) / of_int q"
      using bp(2) qpos by (simp add: divide_strict_right_mono)
    also have "\<dots> \<le> 2 powi (bitlen p) / 2 powi (bitlen q - 1)"
      using bq(1) qpos by (intro divide_left_mono) (auto intro!: mult_pos_pos)
    also have "\<dots> = 2 powi (bitlen p - (bitlen q - 1))"
      by (rule power_int_diff[symmetric]) simp
    also have "\<dots> = 2 powi (?d + 1)"
      by (rule arg_cong[where f="power_int 2"]) simp
    finally show ?thesis .
  qed
  have lo: "2 powi (?d - 1) < ?x"
  proof -
    have "(2::rat) powi (?d - 1) = 2 powi ((bitlen p - 1) - bitlen q)"
      by (rule arg_cong[where f="power_int 2"]) simp
    also have "\<dots> = 2 powi (bitlen p - 1) / (2::rat) powi (bitlen q)"
      by (rule power_int_diff) simp
    also have "\<dots> < 2 powi (bitlen p - 1) / of_int q"
      using bq(2) qpos by (intro divide_strict_left_mono) (auto intro!: mult_pos_pos)
    also have "\<dots> \<le> ?x"
      using bp(1) qpos by (simp add: divide_right_mono)
    finally show ?thesis .
  qed
  have c: "2 powi ?d * of_int q \<le> (of_int p :: rat) \<longleftrightarrow> 2 powi ?d \<le> ?x"
    using qpos by (simp add: pos_le_divide_eq)
  show ?thesis
  proof (cases "2 powi ?d \<le> ?x")
    case True
    with x up have "ilog2 ?x = ?d" by (intro ilog2_eqI) simp_all
    with True c show ?thesis by simp
  next
    case False
    then have "?x < 2 powi ?d" by simp
    then have "?x < 2 powi (?d - 1 + 1)" by simp
    with x lo have "ilog2 ?x = ?d - 1" by (intro ilog2_eqI) simp_all
    with False c show ?thesis by simp
  qed
qed

lemma bitlen_numeral_simps:
  "bitlen 1 = 1"
  "bitlen (numeral Num.One) = 1"
  "bitlen (numeral (Num.Bit0 n)) = bitlen (numeral n) + 1"
  "bitlen (numeral (Num.Bit1 n)) = bitlen (numeral n) + 1"
proof -
  show "bitlen 1 = 1" by (subst compute_bitlen) simp
  then show "bitlen (numeral Num.One) = 1" by simp
  show "bitlen (numeral (Num.Bit0 n)) = bitlen (numeral n) + 1"
    by (subst compute_bitlen) simp
  show "bitlen (numeral (Num.Bit1 n)) = bitlen (numeral n) + 1"
    by (subst compute_bitlen) simp
qed

lemma ilog2_numeral_fraction:
  "ilog2 (numeral a / numeral b) =
     (if 2 powi (bitlen (numeral a) - bitlen (numeral b)) * numeral b \<le> (numeral a :: rat)
      then bitlen (numeral a) - bitlen (numeral b) else bitlen (numeral a) - bitlen (numeral b) - 1)"
  using ilog2_fraction[of "numeral a" "numeral b"] by simp

lemma ilog2_numeral:
  "ilog2 (numeral a) = bitlen (numeral a) - 1"
  using ilog2_fraction[of "numeral a" 1] bitlen_rat_bounds(1)[of "numeral a"]
  by (simp add: bitlen_numeral_simps)

lemma round_double_pos:
  assumes "0 < a" and "ilog2 a \<le> 1022"
  shows "round_double a = Some (round_mag a)"
proof -
  from ilog2_bounds(2)[OF assms(1)] have "a < 2 powi (ilog2 a + 1)" .
  also have "\<dots> \<le> 2 powi 1023" using assms(2) by (intro pow2_mono) simp
  finally have "round_mag a < 2 powi 1024" using assms(1) by (intro round_mag_below)
  with assms(1) show ?thesis by (simp add: round_double_def)
qed

lemma round_double_neg:
  assumes "a < 0" and "ilog2 (- a) \<le> 1022"
  shows "round_double a = Some (- round_mag (- a))"
proof -
  from assms(1) have p: "0 < - a" by simp
  from ilog2_bounds(2)[OF p] have "- a < 2 powi (ilog2 (- a) + 1)" .
  also have "\<dots> \<le> 2 powi 1023" using assms(2) by (intro pow2_mono) simp
  finally have "round_mag (- a) < 2 powi 1024" using p by (intro round_mag_below)
  with assms(1) show ?thesis by (simp add: round_double_def abs_if)
qed

lemma round_half_even_fraction:
  assumes "0 < q"
  shows "round_half_even (of_int p / of_int q) =
           (if 2 * (p mod q) < q then p div q
            else if q < 2 * (p mod q) then p div q + 1
            else if even (p div q) then p div q else p div q + 1)"
proof -
  let ?y = "of_int p / of_int q :: rat"
  have f: "\<lfloor>?y\<rfloor> = p div q" by (rule floor_divide_of_int_eq)
  have qpos: "(0::rat) < of_int q" using assms by simp
  have "of_int p = (of_int (p div q * q + p mod q) :: rat)" by simp
  also have "\<dots> = of_int (p div q) * of_int q + of_int (p mod q)" by (simp only: of_int_add of_int_mult)
  finally have "?y = of_int (p div q) + of_int (p mod q) / of_int q"
    using qpos by (simp add: field_simps)
  then have d: "?y - of_int (p div q) = of_int (p mod q) / of_int q" by linarith
  have lt: "of_int (p mod q) / (of_int q :: rat) < 1/2 \<longleftrightarrow> 2 * (p mod q) < q"
  proof -
    have "of_int (p mod q) / (of_int q :: rat) < 1/2 \<longleftrightarrow> (of_int (2 * (p mod q)) :: rat) < of_int q"
      using qpos by (simp add: field_simps)
    then show ?thesis by (simp only: of_int_less_iff)
  qed
  have gt: "1/2 < of_int (p mod q) / (of_int q :: rat) \<longleftrightarrow> q < 2 * (p mod q)"
  proof -
    have "1/2 < of_int (p mod q) / (of_int q :: rat) \<longleftrightarrow> (of_int q :: rat) < of_int (2 * (p mod q))"
      using qpos by (simp add: field_simps)
    then show ?thesis by (simp only: of_int_less_iff)
  qed
  show ?thesis
    unfolding round_half_even_def Let_def f d lt gt by simp
qed

lemma round_half_even_numeral_fraction:
  "round_half_even (numeral p / numeral q) =
     (if 2 * (numeral p mod numeral q) < (numeral q :: int) then numeral p div numeral q
      else if (numeral q :: int) < 2 * (numeral p mod numeral q) then numeral p div numeral q + 1
      else if even (numeral p div numeral q :: int) then numeral p div numeral q
      else numeral p div numeral q + 1)"
  using round_half_even_fraction[of "numeral q" "numeral p"] by simp

lemma round_half_even_numeral: "round_half_even (numeral p) = numeral p"
  using round_half_even_of_int[of "numeral p"] by simp

lemma round_half_even_one_fraction:
  "round_half_even (1 / numeral q) =
     (if 2 * (1 mod numeral q) < (numeral q :: int) then 1 div numeral q
      else if (numeral q :: int) < 2 * (1 mod numeral q) then 1 div numeral q + 1
      else if even (1 div numeral q :: int) then 1 div numeral q
      else 1 div numeral q + 1)"
  using round_half_even_fraction[of "numeral q" 1] by simp

lemma ilog2_one_fraction:
  "ilog2 (1 / numeral b) =
     (if 2 powi (1 - bitlen (numeral b)) * numeral b \<le> (1 :: rat)
      then 1 - bitlen (numeral b) else 1 - bitlen (numeral b) - 1)"
  using ilog2_fraction[of 1 "numeral b"] by (simp add: bitlen_numeral_simps)

lemma round_double_zero: "round_double 0 = Some 0"
  by (simp add: round_double_def)

lemmas float_eval =
  round_double_zero round_double_pos round_double_neg round_mag_def spacing_exp_def
  round_half_even_numeral_fraction round_half_even_numeral round_half_even_one_fraction
  ilog2_numeral_fraction ilog2_numeral ilog2_one_fraction bitlen_numeral_simps

section \<open>Properties of the debt ledger\<close>

subsection \<open>Dictionary updates\<close>

lemma keys_update_present:
  "map_of bal k = Some v \<Longrightarrow> dict_keys (AList.update k w bal) = dict_keys bal"
  unfolding dict_keys_def by (induction bal) (auto split: if_splits)

lemma add_to_keys: "add_to k delta bal = Inr bal1 \<Longrightarrow> dict_keys bal1 = dict_keys bal"
  by (auto simp: add_to_def keys_update_present split: option.splits)

lemma add_to_returns:
  "k \<in> set (dict_keys bal) \<Longrightarrow> \<exists>bal1. add_to k delta bal = Inr bal1"
  by (cases "map_of bal k") (auto simp: add_to_def dict_keys_def map_of_eq_None_iff)

lemma add_to_raises:
  "k \<notin> set (dict_keys bal) \<Longrightarrow> add_to k delta bal = Inl (KeyError k)"
  by (cases "map_of bal k") (auto simp: add_to_def dict_keys_def map_of_eq_None_iff[symmetric] simp del: map_of_eq_None_iff)

subsection \<open>Keys through the loops\<close>

lemma debtor_step_keys:
  "debtor_step p s d bal = Inr bal1 \<Longrightarrow> dict_keys bal1 = dict_keys bal"
  by (auto simp: debtor_step_def split: if_splits sum.splits dest!: add_to_keys)

lemma debtors_loop_keys:
  "debtors_loop p s ds bal = Inr bal1 \<Longrightarrow> dict_keys bal1 = dict_keys bal"
proof (induction ds arbitrary: bal)
  case Nil
  then show ?case by simp
next
  case (Cons d ds)
  then show ?case by (auto split: sum.splits dest: debtor_step_keys)
qed

lemma bill_step_keys: "bill_step b bal = Inr bal1 \<Longrightarrow> dict_keys bal1 = dict_keys bal"
  by (auto simp: bill_step_def split: if_splits sum.splits dest: debtors_loop_keys)

lemma bills_loop_keys: "bills_loop bs bal = Inr bal1 \<Longrightarrow> dict_keys bal1 = dict_keys bal"
proof (induction bs arbitrary: bal)
  case Nil
  then show ?case by simp
next
  case (Cons b bs)
  then show ?case by (auto split: sum.splits dest: bill_step_keys)
qed

subsection \<open>The initial balances\<close>

lemma update_zero_values:
  "(\<forall>kv \<in> set acc. snd kv = Fin 0) \<Longrightarrow> (\<forall>kv \<in> set (AList.update u (Fin 0) acc). snd kv = Fin 0)"
  by (induction acc) auto

lemma fold_update_zero:
  "distinct (dict_keys acc) \<Longrightarrow> (\<forall>kv \<in> set acc. snd kv = Fin 0) \<Longrightarrow>
   distinct (dict_keys (fold (\<lambda>u bal. AList.update u (Fin 0) bal) us acc)) \<and>
   set (dict_keys (fold (\<lambda>u bal. AList.update u (Fin 0) bal) us acc)) = set us \<union> set (dict_keys acc) \<and>
   length (fold (\<lambda>u bal. AList.update u (Fin 0) bal) us acc) \<le> length us + length acc \<and>
   (\<forall>kv \<in> set (fold (\<lambda>u bal. AList.update u (Fin 0) bal) us acc). snd kv = Fin 0)"
proof (induction us arbitrary: acc)
  case Nil
  then show ?case by simp
next
  case (Cons u us)
  have d: "distinct (dict_keys (AList.update u (Fin 0) acc))"
    using Cons.prems(1) by (simp add: dict_keys_def distinct_update)
  have z: "\<forall>kv \<in> set (AList.update u (Fin 0) acc). snd kv = Fin 0"
    using Cons.prems(2) by (rule update_zero_values)
  have k: "set (dict_keys (AList.update u (Fin 0) acc)) = {u} \<union> set (dict_keys acc)"
    using dom_update[of u "Fin 0" acc] by (simp add: dict_keys_def)
  have l: "length (AList.update u (Fin 0) acc) \<le> Suc (length acc)"
    by (induction acc) auto
  from Cons.IH[OF d z] k l show ?case by auto
qed

lemma init_balances_distinct: "distinct (dict_keys (init_balances us))"
  using fold_update_zero[of "[]" us] by (simp add: init_balances_def dict_keys_def)

lemma init_balances_keys: "set (dict_keys (init_balances us)) = set us"
  using fold_update_zero[of "[]" us] by (simp add: init_balances_def dict_keys_def)

lemma init_balances_length: "length (init_balances us) \<le> length us"
  using fold_update_zero[of "[]" us] by (simp add: init_balances_def dict_keys_def)

lemma init_balances_values: "\<forall>kv \<in> set (init_balances us). snd kv = Fin 0"
  using fold_update_zero[of "[]" us] by (simp add: init_balances_def dict_keys_def)

subsection \<open>When the loops return and what they raise\<close>

lemma debtor_step_returns_iff:
  "(\<exists>bal1. debtor_step p s d bal = Inr bal1) \<longleftrightarrow>
   (d \<noteq> p \<longrightarrow> d \<in> set (dict_keys bal) \<and> p \<in> set (dict_keys bal))"
proof (cases "d = p")
  case True
  then show ?thesis by (simp add: debtor_step_def)
next
  case False
  show ?thesis
  proof (cases "d \<in> set (dict_keys bal)")
    case dk: True
    then obtain bal0 where a: "add_to d (fneg s) bal = Inr bal0"
      using add_to_returns by blast
    then have k: "dict_keys bal0 = dict_keys bal" by (rule add_to_keys)
    show ?thesis
    proof (cases "p \<in> set (dict_keys bal)")
      case True
      with k have "p \<in> set (dict_keys bal0)" by simp
      then obtain bal1 where "add_to p s bal0 = Inr bal1" using add_to_returns by blast
      with a False dk True show ?thesis by (simp add: debtor_step_def)
    next
      case pk: False
      with k have "p \<notin> set (dict_keys bal0)" by simp
      then have "add_to p s bal0 = Inl (KeyError p)" by (rule add_to_raises)
      with a False pk show ?thesis by (simp add: debtor_step_def)
    qed
  next
    case dk: False
    then have "add_to d (fneg s) bal = Inl (KeyError d)" by (rule add_to_raises)
    with False dk show ?thesis by (simp add: debtor_step_def)
  qed
qed

lemma debtor_step_error:
  assumes "debtor_step p s d bal = Inl e"
  shows "\<exists>k. e = KeyError k \<and> k \<notin> set (dict_keys bal)"
proof -
  from assms have dp: "d \<noteq> p" by (auto simp: debtor_step_def split: if_splits)
  show ?thesis
  proof (cases "d \<in> set (dict_keys bal)")
    case True
    then obtain bal0 where a: "add_to d (fneg s) bal = Inr bal0"
      using add_to_returns by blast
    then have k: "dict_keys bal0 = dict_keys bal" by (rule add_to_keys)
    from assms dp a have b: "add_to p s bal0 = Inl e" by (simp add: debtor_step_def)
    have "p \<notin> set (dict_keys bal0)"
    proof
      assume "p \<in> set (dict_keys bal0)"
      then obtain bal1 where "add_to p s bal0 = Inr bal1" using add_to_returns by blast
      with b show False by simp
    qed
    with b k show ?thesis by (auto simp: add_to_raises)
  next
    case False
    then have "add_to d (fneg s) bal = Inl (KeyError d)" by (rule add_to_raises)
    with assms dp False show ?thesis by (auto simp: debtor_step_def)
  qed
qed

lemma debtors_loop_returns_iff:
  "(\<exists>bal1. debtors_loop p s ds bal = Inr bal1) \<longleftrightarrow>
   (\<forall>d \<in> set ds. d \<noteq> p \<longrightarrow> d \<in> set (dict_keys bal) \<and> p \<in> set (dict_keys bal))"
proof (induction ds arbitrary: bal)
  case Nil
  then show ?case by simp
next
  case (Cons d ds)
  show ?case
  proof (cases "debtor_step p s d bal")
    case (Inl e)
    then have "\<not> (\<exists>bal1. debtor_step p s d bal = Inr bal1)" by simp
    then have "\<not> (d \<noteq> p \<longrightarrow> d \<in> set (dict_keys bal) \<and> p \<in> set (dict_keys bal))"
      using debtor_step_returns_iff[of p s d bal] by blast
    then have "\<not> (\<forall>d' \<in> set (d # ds). d' \<noteq> p \<longrightarrow>
        d' \<in> set (dict_keys bal) \<and> p \<in> set (dict_keys bal))" by auto
    moreover from Inl have "\<not> (\<exists>bal1. debtors_loop p s (d # ds) bal = Inr bal1)" by simp
    ultimately show ?thesis by blast
  next
    case (Inr bal0)
    then have "\<exists>bal1. debtor_step p s d bal = Inr bal1" by blast
    then have h: "d \<noteq> p \<longrightarrow> d \<in> set (dict_keys bal) \<and> p \<in> set (dict_keys bal)"
      using debtor_step_returns_iff[of p s d bal] by blast
    from Inr have k: "dict_keys bal0 = dict_keys bal" by (rule debtor_step_keys)
    from Cons.IH[of bal0] Inr h k show ?thesis by auto
  qed
qed

lemma debtors_loop_error:
  "debtors_loop p s ds bal = Inl e \<Longrightarrow> \<exists>k. e = KeyError k \<and> k \<notin> set (dict_keys bal)"
proof (induction ds arbitrary: bal)
  case Nil
  then show ?case by simp
next
  case (Cons d ds)
  show ?case
  proof (cases "debtor_step p s d bal")
    case (Inl e')
    with Cons.prems have "e' = e" by simp
    with Inl show ?thesis by (auto dest: debtor_step_error)
  next
    case (Inr bal0)
    with Cons.prems have "debtors_loop p s ds bal0 = Inl e" by simp
    from Cons.IH[OF this] debtor_step_keys[OF Inr] show ?thesis by simp
  qed
qed

lemma py_truediv_cases:
  assumes "n \<noteq> 0"
  shows "py_truediv a n = Inl OverflowError \<or> (\<exists>r. py_truediv a n = Inr (Fin r))"
  using assms by (simp add: py_truediv_def split: option.splits)

lemma bill_step_overflow: "share_overflows b \<Longrightarrow> bill_step b bal = Inl OverflowError"
  by (simp add: share_overflows_def bill_step_def)

lemma bill_step_share:
  assumes "\<not> share_overflows b" and "debtors b \<noteq> []"
  shows "\<exists>r. py_truediv (amount b) (length (debtors b)) = Inr (Fin r) \<and>
             bill_step b bal = debtors_loop (payer b) (Fin r) (debtors b) bal"
proof -
  from assms(2) have "length (debtors b) \<noteq> 0" by simp
  from py_truediv_cases[OF this, of "amount b"] assms
  obtain r where "py_truediv (amount b) (length (debtors b)) = Inr (Fin r)"
    by (auto simp: share_overflows_def)
  with assms(2) show ?thesis by (simp add: bill_step_def)
qed

lemma bill_step_returns_iff:
  "(\<exists>bal1. bill_step b bal = Inr bal1) \<longleftrightarrow>
   (\<not> share_overflows b \<and>
    (\<forall>d \<in> set (debtors b). d \<noteq> payer b \<longrightarrow> d \<in> set (dict_keys bal) \<and> payer b \<in> set (dict_keys bal)))"
proof (cases "debtors b = []")
  case True
  then show ?thesis by (simp add: bill_step_def share_overflows_def)
next
  case ne: False
  show ?thesis
  proof (cases "share_overflows b")
    case True
    then show ?thesis by (simp add: bill_step_overflow)
  next
    case False
    from bill_step_share[OF False ne, of bal] obtain r where
      "bill_step b bal = debtors_loop (payer b) (Fin r) (debtors b) bal" by blast
    with False show ?thesis
      using debtors_loop_returns_iff[of "payer b" "Fin r" "debtors b" bal] by simp
  qed
qed

lemma bill_step_error:
  assumes "bill_step b bal = Inl e"
  shows "(e = OverflowError \<and> share_overflows b) \<or> (\<exists>k. e = KeyError k \<and> k \<notin> set (dict_keys bal))"
proof (cases "share_overflows b")
  case True
  with assms show ?thesis by (simp add: bill_step_overflow)
next
  case False
  from assms have ne: "debtors b \<noteq> []" by (auto simp: bill_step_def split: if_splits)
  from bill_step_share[OF False ne, of bal] assms obtain r where
    "debtors_loop (payer b) (Fin r) (debtors b) bal = Inl e" by auto
  then show ?thesis by (auto dest: debtors_loop_error)
qed

lemma bills_loop_returns_iff:
  "(\<exists>bal1. bills_loop bs bal = Inr bal1) \<longleftrightarrow>
   (\<forall>b \<in> set bs. \<not> share_overflows b \<and> (\<forall>d \<in> set (debtors b).
      d \<noteq> payer b \<longrightarrow> d \<in> set (dict_keys bal) \<and> payer b \<in> set (dict_keys bal)))"
proof (induction bs arbitrary: bal)
  case Nil
  then show ?case by simp
next
  case (Cons b bs)
  show ?case
  proof (cases "bill_step b bal")
    case (Inl e)
    then have "\<not> (\<exists>bal1. bill_step b bal = Inr bal1)" by simp
    then have "\<not> (\<not> share_overflows b \<and> (\<forall>d \<in> set (debtors b). d \<noteq> payer b \<longrightarrow>
        d \<in> set (dict_keys bal) \<and> payer b \<in> set (dict_keys bal)))"
      using bill_step_returns_iff[of b bal] by blast
    then have "\<not> (\<forall>b' \<in> set (b # bs). \<not> share_overflows b' \<and> (\<forall>d \<in> set (debtors b'). d \<noteq> payer b' \<longrightarrow>
        d \<in> set (dict_keys bal) \<and> payer b' \<in> set (dict_keys bal)))" by auto
    moreover from Inl have "\<not> (\<exists>bal1. bills_loop (b # bs) bal = Inr bal1)" by simp
    ultimately show ?thesis by blast
  next
    case (Inr bal0)
    then have "\<exists>bal1. bill_step b bal = Inr bal1" by blast
    then have h: "\<not> share_overflows b \<and> (\<forall>d \<in> set (debtors b). d \<noteq> payer b \<longrightarrow>
        d \<in> set (dict_keys bal) \<and> payer b \<in> set (dict_keys bal))"
      using bill_step_returns_iff[of b bal] by blast
    from Inr have k: "dict_keys bal0 = dict_keys bal" by (rule bill_step_keys)
    from Cons.IH[of bal0] Inr h k show ?thesis by auto
  qed
qed

lemma bills_loop_error:
  "bills_loop bs bal = Inl e \<Longrightarrow>
   (e = OverflowError \<and> (\<exists>b \<in> set bs. share_overflows b)) \<or>
   (\<exists>k. e = KeyError k \<and> k \<notin> set (dict_keys bal))"
proof (induction bs arbitrary: bal)
  case Nil
  then show ?case by simp
next
  case (Cons b bs)
  show ?case
  proof (cases "bill_step b bal")
    case (Inl e')
    with Cons.prems have "e' = e" by simp
    with Inl show ?thesis by (auto dest: bill_step_error)
  next
    case (Inr bal0)
    with Cons.prems have "bills_loop bs bal0 = Inl e" by simp
    from Cons.IH[OF this] bill_step_keys[OF Inr] show ?thesis by auto
  qed
qed

subsection \<open>Shares that fit a float\<close>

lemma round_double_overflow:
  assumes "2 powi 1024 \<le> \<bar>x\<bar>"
  shows "round_double x = None"
proof -
  let ?a = "\<bar>x\<bar>"
  have a: "0 < ?a" using assms pow2_pos[of 1024] by linarith
  then have x0: "x \<noteq> 0" by simp
  define e where "e = ilog2 ?a"
  define q where "q = spacing_exp ?a"
  from ilog2_bounds(2)[OF a] assms have "(2::rat) powi 1024 < 2 powi (e + 1)" by (simp add: e_def)
  then have e: "1024 \<le> e" using pow2_less_cancel by fastforce
  then have q: "q = e - 52" by (simp add: q_def e_def spacing_exp_def)
  have "(2::rat) powi e = 2 powi (52 + q)" unfolding q by simp
  also have "\<dots> = 2 powi 52 * 2 powi q" by (rule pow2_split)
  finally have pe: "(2::rat) powi e = of_int (2 ^ 52) * 2 powi q" by simp
  have "of_int (2 ^ 52) * 2 powi q \<le> ?a" using ilog2_bounds(1)[OF a] pe by (simp add: e_def)
  then have "(of_int (2 ^ 52) :: rat) \<le> ?a / 2 powi q"
    by (simp add: pos_le_divide_eq)
  then have "2 ^ 52 \<le> \<lfloor>?a / 2 powi q\<rfloor>" by (simp only: le_floor_iff)
  moreover have "\<lfloor>?a / 2 powi q\<rfloor> \<le> round_half_even (?a / 2 powi q)"
    by (simp add: round_half_even_def Let_def)
  ultimately have "(2 ^ 52 :: int) \<le> round_half_even (?a / 2 powi q)" by linarith
  then have "(of_int (2 ^ 52) :: rat) \<le> of_int (round_half_even (?a / 2 powi q))"
    by (simp only: of_int_le_iff)
  then have "of_int (2 ^ 52) * 2 powi q \<le> of_int (round_half_even (?a / 2 powi q)) * (2::rat) powi q"
    by (rule mult_right_mono) simp
  then have "2 powi e \<le> round_mag ?a"
    unfolding pe round_mag_def q_def .
  moreover have "(2::rat) powi 1024 \<le> 2 powi e" using e by (rule pow2_mono)
  ultimately have "2 powi 1024 \<le> round_mag ?a" by linarith
  with x0 show ?thesis by (simp add: round_double_def)
qed

lemma round_double_fits:
  assumes "\<bar>x\<bar> < 2 powi 1023"
  shows "round_double x \<noteq> None"
proof (cases "x = 0")
  case True
  then show ?thesis by (simp add: round_double_def)
next
  case False
  then have "0 < \<bar>x\<bar>" by simp
  from round_mag_below[OF this assms] False show ?thesis by (simp add: round_double_def)
qed

lemma share_fits:
  assumes "\<bar>amount b\<bar> < 2 ^ 1023"
  shows "\<not> share_overflows b"
proof
  assume o: "share_overflows b"
  then have n: "length (debtors b) \<noteq> 0" by (simp add: share_overflows_def)
  let ?x = "of_int (amount b) / of_nat (length (debtors b)) :: rat"
  have "\<bar>?x\<bar> = of_int \<bar>amount b\<bar> / of_nat (length (debtors b))" by simp
  also have "\<dots> \<le> of_int \<bar>amount b\<bar> / 1"
  proof (rule divide_left_mono)
    from n have "1 \<le> length (debtors b)" by (cases "debtors b") simp_all
    then show "(1::rat) \<le> of_nat (length (debtors b))" by simp
  qed (use n in simp_all)
  also have "\<dots> < of_int (2 ^ 1023)" using assms by (simp only: div_by_1 of_int_less_iff)
  finally have "\<bar>?x\<bar> < 2 powi 1023" by simp
  then have "round_double ?x \<noteq> None" by (rule round_double_fits)
  with o n show False by (auto simp: share_overflows_def py_truediv_def split: option.splits)
qed

subsection \<open>Bills that move nothing\<close>

lemma bills_loop_append:
  "bills_loop (xs @ ys) bal =
     (case bills_loop xs bal of Inl e \<Rightarrow> Inl e | Inr bal1 \<Rightarrow> bills_loop ys bal1)"
  by (induction xs arbitrary: bal) (auto split: sum.splits)

lemma debtors_loop_only_payer:
  "set ds \<subseteq> {p} \<Longrightarrow> debtors_loop p s ds bal = Inr bal"
  by (induction ds arbitrary: bal) (auto simp: debtor_step_def)

lemma bill_step_only_payer:
  assumes "set (debtors b) \<subseteq> {payer b}" and "\<not> share_overflows b"
  shows "bill_step b bal = Inr bal"
proof (cases "debtors b = []")
  case True
  then show ?thesis by (simp add: bill_step_def)
next
  case False
  from bill_step_share[OF assms(2) False, of bal] assms(1) show ?thesis
    by (auto simp: debtors_loop_only_payer)
qed

lemma bills_loop_skip:
  assumes "\<And>bal. bill_step b bal = Inr bal"
  shows "bills_loop (bs1 @ b # bs2) bal = bills_loop (bs1 @ bs2) bal"
  using assms by (simp add: bills_loop_append split: sum.splits)

lemma bills_loop_drop_returning:
  assumes "bills_loop (bs1 @ b # bs2) bal = Inr r" and "set (debtors b) \<subseteq> {payer b}"
  shows "bills_loop (bs1 @ bs2) bal = Inr r"
proof -
  from assms(1) obtain bal1 where a: "bills_loop bs1 bal = Inr bal1"
    and b: "bills_loop (b # bs2) bal1 = Inr r"
    by (auto simp: bills_loop_append split: sum.splits)
  from b obtain bal2 where c: "bill_step b bal1 = Inr bal2" and d: "bills_loop bs2 bal2 = Inr r"
    by (auto split: sum.splits)
  from c have "\<not> share_overflows b" using bill_step_returns_iff[of b bal1] by blast
  with assms(2) have "bill_step b bal1 = Inr bal1" by (rule bill_step_only_payer)
  with c have "bal2 = bal1" by simp
  with a d show ?thesis by (simp add: bills_loop_append)
qed

text \<open>
  C6, as stated, fails when the share of the bill is too large for a float: the
  division of line 89 comes before the loop over the debtors and raises OverflowError,
  so a bill of 2^1024 that Ale pays for Ale alone makes \<open>calculate_debts\<close> raise,
  where without that bill it returns the balances.
\<close>

theorem self_debtor_overflow_counterexample:
  "set (debtors huge_self_bill) = {payer huge_self_bill} \<and>
   calculate_debts ROOMIES ([] @ huge_self_bill # []) = Inl OverflowError \<and>
   calculate_debts ROOMIES ([] @ []) = Inr [(''Ale'', Fin 0), (''Ferb'', Fin 0), (''Fandi'', Fin 0)]"
proof -
  have "round_double (of_int (2 ^ 1024) / of_nat (Suc 0)) = None"
    by (rule round_double_overflow) simp
  then have "py_truediv (2 ^ 1024) (Suc 0) = Inl OverflowError"
    by (simp add: py_truediv_def)
  then show ?thesis
    by (simp add: calculate_debts_def ROOMIES_def huge_self_bill_def init_balances_def bill_step_def)
qed

text \<open>
  C6, amended. For a bill whose debtors are exactly the payer: when its share
  \<open>amount / len(debtors)\<close> fits a float (it does whenever the amount is below 2^1023 in
  absolute value, \<open>share_fits\<close>), the loop body returns the balances it was given, and
  the result of \<open>calculate_debts\<close> for a bill list that contains the bill, at any
  position, is the result for the list without it; when the share does not fit, the
  bill raises OverflowError. In every case, balances computed from a list with such a
  bill are the balances computed from the list without it.
\<close>

theorem self_debtor_no_transfer:
  assumes "set (debtors b) = {payer b}"
  shows "(\<not> share_overflows b \<longrightarrow>
            bill_step b bal = Inr bal \<and>
            calculate_debts users (bs1 @ b # bs2) = calculate_debts users (bs1 @ bs2)) \<and>
         (share_overflows b \<longrightarrow> bill_step b bal = Inl OverflowError) \<and>
         (\<forall>r. calculate_debts users (bs1 @ b # bs2) = Inr r \<longrightarrow>
              calculate_debts users (bs1 @ bs2) = Inr r)"
proof (intro conjI impI allI)
  assume f: "\<not> share_overflows b"
  with assms have s: "\<And>bal. bill_step b bal = Inr bal"
    by (simp add: bill_step_only_payer)
  then show "bill_step b bal = Inr bal" .
  from s show "calculate_debts users (bs1 @ b # bs2) = calculate_debts users (bs1 @ bs2)"
    unfolding calculate_debts_def by (simp add: bills_loop_skip)
next
  assume "share_overflows b"
  then show "bill_step b bal = Inl OverflowError" by (rule bill_step_overflow)
next
  fix r
  assume "calculate_debts users (bs1 @ b # bs2) = Inr r"
  then have "bills_loop (bs1 @ b # bs2) (init_balances users) = Inr r"
    by (simp only: calculate_debts_def)
  moreover from assms have "set (debtors b) \<subseteq> {payer b}" by simp
  ultimately have "bills_loop (bs1 @ bs2) (init_balances users) = Inr r"
    by (rule bills_loop_drop_returning)
  then show "calculate_debts users (bs1 @ bs2) = Inr r"
    by (simp only: calculate_debts_def)
qed

lemma ex_bills_self_balances:
  "calculate_debts ROOMIES (take 1 ex_bills @ self_bill # drop 1 ex_bills) =
     Inr [(''Ale'', Fin 150), (''Ferb'', Fin 0), (''Fandi'', Fin (- 150))]"
  by (simp add: calculate_debts_def ROOMIES_def ex_bills_def self_bill_def init_balances_def bill_step_def
      py_truediv_def debtor_step_def add_to_def float_eval)

theorem self_debtor_no_transfer_witness:
  "calculate_debts ROOMIES (take 1 ex_bills @ self_bill # drop 1 ex_bills) =
     calculate_debts ROOMIES (take 1 ex_bills @ drop 1 ex_bills) \<and>
   calculate_debts ROOMIES (take 1 ex_bills @ drop 1 ex_bills) =
     Inr [(''Ale'', Fin 150), (''Ferb'', Fin 0), (''Fandi'', Fin (- 150))] \<and>
   bill_step huge_self_bill [(''Ale'', Fin 0)] = Inl OverflowError"
proof -
  have h: "set (debtors self_bill) = {payer self_bill}" by (simp add: self_bill_def)
  have f: "\<not> share_overflows self_bill"
    by (rule share_fits) (simp add: self_bill_def)
  have h2: "set (debtors huge_self_bill) = {payer huge_self_bill}" by (simp add: huge_self_bill_def)
  have "round_double (of_int (2 ^ 1024) / of_nat (Suc 0)) = None"
    by (rule round_double_overflow) simp
  then have o: "share_overflows huge_self_bill"
    by (simp add: share_overflows_def huge_self_bill_def py_truediv_def)
  from self_debtor_no_transfer[OF h, of _ ROOMIES "take 1 ex_bills" "drop 1 ex_bills"] f
  have a: "calculate_debts ROOMIES (take 1 ex_bills @ self_bill # drop 1 ex_bills) =
     calculate_debts ROOMIES (take 1 ex_bills @ drop 1 ex_bills)" by blast
  from self_debtor_no_transfer[OF h2, of "[(''Ale'', Fin 0)]"] o
  have b: "bill_step huge_self_bill [(''Ale'', Fin 0)] = Inl OverflowError" by blast
  from a b ex_bills_self_balances show ?thesis by simp
qed

text \<open>
  C7. The division of \<open>calculate_debts\<close> raises ZeroDivisionError on an empty debtor
  list in this model, and \<open>calculate_debts\<close> never returns that exception, whatever
  the bills: a bill with no debtors is skipped before the share is computed. Such a
  bill leaves the balances it is given as they are, and the result for a bill list
  that contains it is the result for the list without it.
\<close>

theorem no_division_by_zero:
  "calculate_debts users bills_list \<noteq> Inl ZeroDivisionError \<and>
   (debtors b = [] \<longrightarrow>
      bill_step b bal = Inr bal \<and>
      calculate_debts users (bs1 @ b # bs2) = calculate_debts users (bs1 @ bs2))"
proof (intro conjI impI)
  show "calculate_debts users bills_list \<noteq> Inl ZeroDivisionError"
    unfolding calculate_debts_def using bills_loop_error by blast
next
  assume e: "debtors b = []"
  then show "bill_step b bal = Inr bal" by (simp add: bill_step_def)
  from e have "\<And>bal. bill_step b bal = Inr bal" by (simp add: bill_step_def)
  then show "calculate_debts users (bs1 @ b # bs2) = calculate_debts users (bs1 @ bs2)"
    unfolding calculate_debts_def by (simp add: bills_loop_skip)
qed

lemma ex_bills_empty_balances:
  "calculate_debts ROOMIES (take 1 ex_bills @ empty_bill # drop 1 ex_bills) =
     Inr [(''Ale'', Fin 150), (''Ferb'', Fin 0), (''Fandi'', Fin (- 150))]"
  by (simp add: calculate_debts_def ROOMIES_def ex_bills_def empty_bill_def init_balances_def bill_step_def
      py_truediv_def debtor_step_def add_to_def float_eval)

theorem no_division_by_zero_witness:
  "calculate_debts ROOMIES [empty_bill] = Inr [(''Ale'', Fin 0), (''Ferb'', Fin 0), (''Fandi'', Fin 0)] \<and>
   calculate_debts ROOMIES (take 1 ex_bills @ empty_bill # drop 1 ex_bills) =
     calculate_debts ROOMIES (take 1 ex_bills @ drop 1 ex_bills) \<and>
   calculate_debts ROOMIES (take 1 ex_bills @ empty_bill # drop 1 ex_bills) =
     Inr [(''Ale'', Fin 150), (''Ferb'', Fin 0), (''Fandi'', Fin (- 150))]"
proof -
  have h: "debtors empty_bill = []" by (simp add: empty_bill_def)
  have "calculate_debts ROOMIES [empty_bill] = Inr [(''Ale'', Fin 0), (''Ferb'', Fin 0), (''Fandi'', Fin 0)]"
    by (simp add: calculate_debts_def ROOMIES_def empty_bill_def init_balances_def bill_step_def)
  with no_division_by_zero[of ROOMIES "[empty_bill]" empty_bill _ "take 1 ex_bills" "drop 1 ex_bills"]
    h ex_bills_empty_balances
  show ?thesis by simp
qed

subsection \<open>When the ledger raises\<close>

text \<open>
  C10, as stated, fails: a bill whose payer is not a participant does not make
  \<open>calculate_debts\<close> raise when no debtor of that bill differs from the payer, since
  the balances are indexed only inside \<^verbatim>\<open>if d != payer\<close>.
\<close>

theorem outsider_payer_counterexample:
  "payer outsider_bill \<notin> set ROOMIES \<and>
   calculate_debts ROOMIES [outsider_bill] = Inr [(''Ale'', Fin 0), (''Ferb'', Fin 0), (''Fandi'', Fin 0)]"
  by (simp add: calculate_debts_def ROOMIES_def outsider_bill_def init_balances_def bill_step_def
      py_truediv_def debtor_step_def float_eval)

text \<open>
  C10, amended. \<open>calculate_debts\<close> raises exactly when some bill has a share too large
  for a float, or has a debtor different from its payer such that this debtor or the
  payer is not a participant. What it raises is an OverflowError, and then some share
  is too large, or a KeyError for a name that is not a participant. It returns
  balances whenever the payer and the debtors of every bill are participants and
  every share fits a float, which it does for every amount below 2^1023 in absolute
  value (\<open>share_fits\<close>).
\<close>

theorem calculate_debts_raises_iff:
  "((\<exists>e. calculate_debts users bills_list = Inl e) \<longleftrightarrow>
      (\<exists>b \<in> set bills_list. share_overflows b \<or> (\<exists>d \<in> set (debtors b).
         d \<noteq> payer b \<and> (d \<notin> set users \<or> payer b \<notin> set users)))) \<and>
   (\<forall>e. calculate_debts users bills_list = Inl e \<longrightarrow>
      (e = OverflowError \<and> (\<exists>b \<in> set bills_list. share_overflows b)) \<or>
      (\<exists>k. e = KeyError k \<and> k \<notin> set users)) \<and>
   ((\<forall>b \<in> set bills_list. payer b \<in> set users \<and> set (debtors b) \<subseteq> set users \<and>
        \<not> share_overflows b) \<longrightarrow>
      (\<exists>bal. calculate_debts users bills_list = Inr bal))"
proof -
  let ?b0 = "init_balances users"
  let ?ok = "\<forall>b \<in> set bills_list. \<not> share_overflows b \<and> (\<forall>d \<in> set (debtors b).
      d \<noteq> payer b \<longrightarrow> d \<in> set users \<and> payer b \<in> set users)"
  have r: "(\<exists>bal. calculate_debts users bills_list = Inr bal) \<longleftrightarrow> ?ok"
    unfolding calculate_debts_def
    using bills_loop_returns_iff[of bills_list ?b0] by (simp only: init_balances_keys)
  have x: "(\<exists>e. calculate_debts users bills_list = Inl e) \<longleftrightarrow>
           \<not> (\<exists>bal. calculate_debts users bills_list = Inr bal)"
    by (cases "calculate_debts users bills_list") auto
  have c1: "(\<exists>e. calculate_debts users bills_list = Inl e) \<longleftrightarrow>
      (\<exists>b \<in> set bills_list. share_overflows b \<or> (\<exists>d \<in> set (debtors b).
         d \<noteq> payer b \<and> (d \<notin> set users \<or> payer b \<notin> set users)))"
    unfolding x r by blast
  have c2: "\<forall>e. calculate_debts users bills_list = Inl e \<longrightarrow>
      (e = OverflowError \<and> (\<exists>b \<in> set bills_list. share_overflows b)) \<or>
      (\<exists>k. e = KeyError k \<and> k \<notin> set users)"
    unfolding calculate_debts_def
    using bills_loop_error[of bills_list ?b0] by (simp add: init_balances_keys)
  have c3: "(\<forall>b \<in> set bills_list. payer b \<in> set users \<and> set (debtors b) \<subseteq> set users \<and>
        \<not> share_overflows b) \<longrightarrow>
      (\<exists>bal. calculate_debts users bills_list = Inr bal)"
    unfolding r by blast
  from c1 c2 c3 show ?thesis by blast
qed

theorem calculate_debts_raises_iff_witness:
  "calculate_debts ROOMIES [guest_debtor_bill] = Inl (KeyError ''Zed'') \<and>
   ''Zed'' \<notin> set ROOMIES \<and>
   (\<exists>bal. calculate_debts ROOMIES ex_bills = Inr bal)"
proof -
  have a: "calculate_debts ROOMIES [guest_debtor_bill] = Inl (KeyError ''Zed'')"
    by (simp add: calculate_debts_def ROOMIES_def guest_debtor_bill_def init_balances_def bill_step_def
      py_truediv_def debtor_step_def add_to_def float_eval)
  have f: "\<forall>b \<in> set ex_bills. \<not> share_overflows b"
    by (auto intro!: share_fits simp: ex_bills_def)
  have h: "\<forall>b \<in> set ex_bills. payer b \<in> set ROOMIES \<and> set (debtors b) \<subseteq> set ROOMIES \<and>
      \<not> share_overflows b"
    using f by (simp add: ex_bills_def ROOMIES_def)
  from calculate_debts_raises_iff[of ROOMIES "[guest_debtor_bill]"] a
  have "''Zed'' \<notin> set ROOMIES" by auto
  moreover from calculate_debts_raises_iff[of ROOMIES ex_bills] h
  have "\<exists>bal. calculate_debts ROOMIES ex_bills = Inr bal" by blast
  ultimately show ?thesis using a by simp
qed

section \<open>Properties of the operations on the document\<close>

subsection \<open>The context filter\<close>

text \<open>
  C8. For every collection and every context id, \<open>get_context_data\<close> returns a
  subsequence of the collection (the relative order is kept), every entry of the result
  has the given context, every entry of the collection with that context is in the result
  as many times as in the collection, and filtering the result again with the same
  context gives the result back. As a function of its arguments it is deterministic.
\<close>

theorem get_context_data_subsequence:
  "subseq (get_context_data cid xs) xs \<and>
   (\<forall>x \<in> set (get_context_data cid xs). ctx x = cid) \<and>
   (\<forall>x. ctx x = cid \<longrightarrow> count_list (get_context_data cid xs) x = count_list xs x) \<and>
   get_context_data cid (get_context_data cid xs) = get_context_data cid xs"
proof -
  have c: "count_list (filter P xs) x = count_list xs x" if "P x" for P and x :: "'a entity_scheme"
    using that by (induction xs) auto
  show ?thesis
    unfolding get_context_data_def by (simp add: c)
qed

theorem get_context_data_subsequence_witness:
  "get_context_data ''cat'' ex_shopping =
     [\<lparr>ctx = ''cat'', shopping_item.name = ''milk'', shopping_item.status = ''buy''\<rparr>,
      \<lparr>ctx = ''cat'', shopping_item.name = ''bread'', shopping_item.status = ''have''\<rparr>] \<and>
   subseq (get_context_data ''cat'' ex_shopping) ex_shopping \<and>
   count_list (get_context_data ''cat'' ex_shopping) (ex_shopping ! 1) = count_list ex_shopping (ex_shopping ! 1) \<and>
   get_context_data ''cat'' (get_context_data ''cat'' ex_shopping) = get_context_data ''cat'' ex_shopping"
proof -
  have a: "get_context_data ''cat'' ex_shopping =
     [\<lparr>ctx = ''cat'', shopping_item.name = ''milk'', shopping_item.status = ''buy''\<rparr>,
      \<lparr>ctx = ''cat'', shopping_item.name = ''bread'', shopping_item.status = ''have''\<rparr>]"
    by (simp add: get_context_data_def ex_shopping_def)
  have b: "ctx (ex_shopping ! 1) = ''cat''" by (simp add: ex_shopping_def)
  from get_context_data_subsequence[of "''cat''" ex_shopping] a b show ?thesis by blast
qed

subsection \<open>Removing a shopping item\<close>

lemma list_remove_present:
  "x \<in> set xs \<Longrightarrow>
   \<exists>ys zs. xs = ys @ x # zs \<and> x \<notin> set ys \<and> list_remove x xs = Inr (ys @ zs)"
proof (induction xs)
  case Nil
  then show ?case by simp
next
  case (Cons y xs)
  show ?case
  proof (cases "y = x")
    case True
    then have "y # xs = [] @ x # xs \<and> x \<notin> set [] \<and> list_remove x (y # xs) = Inr ([] @ xs)"
      by simp
    then show ?thesis by blast
  next
    case False
    with Cons.prems have "x \<in> set xs" by simp
    from Cons.IH[OF this] obtain ys zs where
      h: "xs = ys @ x # zs" "x \<notin> set ys" "list_remove x xs = Inr (ys @ zs)" by blast
    with False have "y # xs = (y # ys) @ x # zs \<and> x \<notin> set (y # ys) \<and>
        list_remove x (y # xs) = Inr ((y # ys) @ zs)" by simp
    then show ?thesis by blast
  qed
qed

lemma list_remove_absent: "x \<notin> set xs \<Longrightarrow> list_remove x xs = Inl ValueError"
  by (induction xs) auto

text \<open>
  C9. Removing a shopping item that is in the list deletes one entry, the first one
  equal to it, and keeps the others in their order; the rest of the state is untouched,
  and for every context other than the item's own, the items of that context (among them
  one with the same name) are the same before and after.
\<close>

theorem remove_shopping_item_frame:
  assumes "item \<in> set (shopping (data s))"
  shows "\<exists>ys zs. shopping (data s) = ys @ item # zs \<and> item \<notin> set ys \<and>
           remove_shopping_item item s = Inr (s\<lparr>data := (data s)\<lparr>shopping := ys @ zs\<rparr>\<rparr>) \<and>
           (\<forall>c. c \<noteq> ctx item \<longrightarrow>
              get_context_data c (ys @ zs) = get_context_data c (shopping (data s)))"
proof -
  from list_remove_present[OF assms] obtain ys zs where
    h: "shopping (data s) = ys @ item # zs" "item \<notin> set ys"
       "list_remove item (shopping (data s)) = Inr (ys @ zs)" by blast
  have "remove_shopping_item item s = Inr (s\<lparr>data := (data s)\<lparr>shopping := ys @ zs\<rparr>\<rparr>)"
    using h(3) by (simp add: remove_shopping_item_def)
  moreover have "\<forall>c. c \<noteq> ctx item \<longrightarrow>
      get_context_data c (ys @ zs) = get_context_data c (shopping (data s))"
    using h(1) by (simp add: get_context_data_def)
  ultimately show ?thesis using h(1,2) by blast
qed

theorem remove_shopping_item_frame_witness:
  "remove_shopping_item (ex_shopping ! 0) ex_session =
     Inr (ex_session\<lparr>data := (data ex_session)\<lparr>shopping := tl ex_shopping\<rparr>\<rparr>) \<and>
   get_context_data ''cat'' (tl ex_shopping) = get_context_data ''cat'' ex_shopping \<and>
   get_context_data ''cat'' ex_shopping =
     [\<lparr>ctx = ''cat'', shopping_item.name = ''milk'', shopping_item.status = ''buy''\<rparr>,
      \<lparr>ctx = ''cat'', shopping_item.name = ''bread'', shopping_item.status = ''have''\<rparr>]"
proof -
  have m: "ex_shopping ! 0 \<in> set (shopping (data ex_session))"
    by (simp add: ex_session_def ex_shopping_def)
  have r: "remove_shopping_item (ex_shopping ! 0) ex_session =
     Inr (ex_session\<lparr>data := (data ex_session)\<lparr>shopping := tl ex_shopping\<rparr>\<rparr>)"
    by (simp add: remove_shopping_item_def ex_session_def ex_shopping_def)
  have c: "ctx (ex_shopping ! 0) = ''house''" by (simp add: ex_shopping_def)
  from remove_shopping_item_frame[OF m] obtain ys zs where
    h: "remove_shopping_item (ex_shopping ! 0) ex_session =
          Inr (ex_session\<lparr>data := (data ex_session)\<lparr>shopping := ys @ zs\<rparr>\<rparr>)"
       "\<forall>c. c \<noteq> ctx (ex_shopping ! 0) \<longrightarrow>
          get_context_data c (ys @ zs) = get_context_data c (shopping (data ex_session))"
    by blast
  from h(1) r have "shopping (data (ex_session\<lparr>data := (data ex_session)\<lparr>shopping := ys @ zs\<rparr>\<rparr>)) =
      shopping (data (ex_session\<lparr>data := (data ex_session)\<lparr>shopping := tl ex_shopping\<rparr>\<rparr>))"
    by simp
  then have e: "ys @ zs = tl ex_shopping" by simp
  from h(2) c have "get_context_data ''cat'' (ys @ zs) = get_context_data ''cat'' (shopping (data ex_session))"
    by simp
  with e have "get_context_data ''cat'' (tl ex_shopping) = get_context_data ''cat'' ex_shopping"
    by (simp add: ex_session_def)
  moreover have "get_context_data ''cat'' ex_shopping =
     [\<lparr>ctx = ''cat'', shopping_item.name = ''milk'', shopping_item.status = ''buy''\<rparr>,
      \<lparr>ctx = ''cat'', shopping_item.name = ''bread'', shopping_item.status = ''have''\<rparr>]"
    by (simp add: get_context_data_def ex_shopping_def)
  ultimately show ?thesis using r by simp
qed

subsection \<open>Checkout\<close>

lemma mark_have_map:
  "mark_have item_name cid db =
     map (\<lambda>i. if shopping_item.name i = item_name \<and> ctx i = cid
              then i\<lparr>shopping_item.status := ''have''\<rparr> else i) db"
  by (induction db) auto

lemma update_inventory_map:
  "update_inventory names cid db =
     map (\<lambda>i. if shopping_item.name i \<in> set names \<and> ctx i = cid
              then i\<lparr>shopping_item.status := ''have''\<rparr> else i) db"
proof (induction names arbitrary: db)
  case Nil
  then show ?case by simp
next
  case (Cons n names)
  show ?case
    unfolding update_inventory.simps Cons.IH mark_have_map
    by (auto simp: map_eq_conv)
qed

lemma update_inventory_other_context:
  "c \<noteq> cid \<Longrightarrow>
   get_context_data c (update_inventory names cid db) = get_context_data c db"
  unfolding update_inventory_map get_context_data_def
  by (induction db) auto

text \<open>
  C3, as stated, fails in its second half: with a positive cart total, checkout with an
  empty list of debtors is not rejected. It appends a bill whose debtor list is empty
  and changes the state.
\<close>

theorem checkout_empty_debtors_counterexample:
  "bills (data ex_session) = ex_bills \<and>
   bills (data (checkout ''house'' ''2024-02-01'' ''Ale'' [] ex_session)) =
     ex_bills @
     [\<lparr>ctx = ''house'', bill.date = ''2024-02-01'', amount = 150, category = ''Supermercado'',
       description = ''milk (100), bread (50)'', payer = ''Ale'', debtors = []\<rparr>] \<and>
   checkout ''house'' ''2024-02-01'' ''Ale'' [] ex_session \<noteq> ex_session"
proof -
  have d: "desc_str [(''milk'', 100), (''bread'', 50)] = ''milk (100), bread (50)''"
    by (simp add: desc_str_def str_int_def str_nat.simps digit_char_def)
  have a: "bills (data ex_session) = ex_bills" by (simp add: ex_session_def)
  have b: "bills (data (checkout ''house'' ''2024-02-01'' ''Ale'' [] ex_session)) =
     ex_bills @
     [\<lparr>ctx = ''house'', bill.date = ''2024-02-01'', amount = 150, category = ''Supermercado'',
       description = ''milk (100), bread (50)'', payer = ''Ale'', debtors = []\<rparr>]"
    by (simp add: checkout_def ex_session_def cart_total_def d Let_def)
  from a b have "bills (data (checkout ''house'' ''2024-02-01'' ''Ale'' [] ex_session)) \<noteq>
      bills (data ex_session)" by simp
  then have "checkout ''house'' ''2024-02-01'' ''Ale'' [] ex_session \<noteq> ex_session" by auto
  with a b show ?thesis by simp
qed

text \<open>
  C3, amended. Checkout leaves the whole state as it is whenever the cart total is 0
  (or negative), whatever the debtors. The debtors are not looked at: with a positive
  total and an empty debtor list, checkout appends the Supermercado bill with that
  empty debtor list.
\<close>

theorem checkout_noop_when_total_not_positive:
  "(cart_total (shopping_cart s) \<le> 0 \<longrightarrow> checkout cid today c_payer c_debtors s = s) \<and>
   (0 < cart_total (shopping_cart s) \<longrightarrow>
      bills (data (checkout cid today c_payer [] s)) =
        bills (data s) @
        [\<lparr>ctx = cid, bill.date = today, amount = cart_total (shopping_cart s),
          category = ''Supermercado'', description = desc_str (shopping_cart s),
          payer = c_payer, debtors = []\<rparr>])"
  by (simp add: checkout_def Let_def)

theorem checkout_noop_when_total_not_positive_witness:
  "cart_total (shopping_cart ex_zero_cart_session) = 0 \<and>
   checkout ''house'' ''2024-02-01'' ''Ale'' [''Ale'', ''Ferb''] ex_zero_cart_session = ex_zero_cart_session \<and>
   cart_total (shopping_cart ex_session) = 150 \<and>
   map debtors (bills (data (checkout ''house'' ''2024-02-01'' ''Ale'' [] ex_session))) =
     map debtors ex_bills @ [[]]"
proof -
  have z: "cart_total (shopping_cart ex_zero_cart_session) = 0"
    by (simp add: ex_zero_cart_session_def cart_total_def)
  have p: "cart_total (shopping_cart ex_session) = 150"
    by (simp add: ex_session_def cart_total_def)
  from checkout_noop_when_total_not_positive[of ex_zero_cart_session "''house''" "''2024-02-01''" "''Ale''" "[''Ale'', ''Ferb'']"] z
  have a: "checkout ''house'' ''2024-02-01'' ''Ale'' [''Ale'', ''Ferb''] ex_zero_cart_session = ex_zero_cart_session"
    by simp
  from checkout_noop_when_total_not_positive[of ex_session "''house''" "''2024-02-01''" "''Ale''"] p
  have "bills (data (checkout ''house'' ''2024-02-01'' ''Ale'' [] ex_session)) =
        bills (data ex_session) @
        [\<lparr>ctx = ''house'', bill.date = ''2024-02-01'', amount = cart_total (shopping_cart ex_session),
          category = ''Supermercado'', description = desc_str (shopping_cart ex_session),
          payer = ''Ale'', debtors = []\<rparr>]"
    by simp
  then have b: "map debtors (bills (data (checkout ''house'' ''2024-02-01'' ''Ale'' [] ex_session))) =
     map debtors ex_bills @ [[]]"
    by (simp add: ex_session_def)
  from z p a b show ?thesis by simp
qed

text \<open>
  C4. When the cart total is positive (so the cart is not empty), checkout returns the
  state in which exactly one bill is appended, with the sum of the cart prices as its
  amount, category Supermercado, and the payer, debtors and context given; every
  shopping item whose name is a key of the cart and whose context is the active one
  has status have, every other shopping item is as before; the cart is empty; tasks,
  furniture and the pending furniture purchase are as before. For every other
  context, the shopping items of that context are unchanged.
\<close>

theorem checkout_effect:
  assumes "0 < cart_total (shopping_cart s)"
  shows "checkout cid today c_payer c_debtors s =
           s\<lparr>data := (data s)
                \<lparr>bills := bills (data s) @
                   [\<lparr>ctx = cid, bill.date = today, amount = sum_list (map snd (shopping_cart s)),
                     category = ''Supermercado'', description = desc_str (shopping_cart s),
                     payer = c_payer, debtors = c_debtors\<rparr>],
                 shopping := map (\<lambda>i. if shopping_item.name i \<in> set (map fst (shopping_cart s)) \<and> ctx i = cid
                                        then i\<lparr>shopping_item.status := ''have''\<rparr> else i)
                                 (shopping (data s))\<rparr>,
              shopping_cart := []\<rparr> \<and>
         (\<forall>c. c \<noteq> cid \<longrightarrow>
            get_context_data c (shopping (data (checkout cid today c_payer c_debtors s))) =
            get_context_data c (shopping (data s)))"
proof -
  from assms have e: "checkout cid today c_payer c_debtors s =
      s\<lparr>data := (data s)
           \<lparr>bills := bills (data s) @
              [\<lparr>ctx = cid, bill.date = today, amount = cart_total (shopping_cart s),
                category = ''Supermercado'', description = desc_str (shopping_cart s),
                payer = c_payer, debtors = c_debtors\<rparr>],
            shopping := update_inventory (cart_items (shopping_cart s)) cid (shopping (data s))\<rparr>,
         shopping_cart := []\<rparr>"
    by (simp add: checkout_def Let_def)
  have f: "\<forall>c. c \<noteq> cid \<longrightarrow>
            get_context_data c (shopping (data (checkout cid today c_payer c_debtors s))) =
            get_context_data c (shopping (data s))"
    unfolding e by (simp add: update_inventory_other_context)
  from e f show ?thesis
    by (simp add: update_inventory_map cart_items_def dict_keys_def cart_total_def)
qed

theorem checkout_effect_witness:
  "bills (data (checkout ''house'' ''2024-02-01'' ''Ale'' [''Ale'', ''Ferb'', ''Fandi''] ex_session)) =
     ex_bills @
     [\<lparr>ctx = ''house'', bill.date = ''2024-02-01'', amount = 150, category = ''Supermercado'',
       description = ''milk (100), bread (50)'', payer = ''Ale'',
       debtors = [''Ale'', ''Ferb'', ''Fandi'']\<rparr>] \<and>
   shopping (data (checkout ''house'' ''2024-02-01'' ''Ale'' [''Ale'', ''Ferb'', ''Fandi''] ex_session)) =
     [\<lparr>ctx = ''house'', shopping_item.name = ''milk'', shopping_item.status = ''have''\<rparr>,
      \<lparr>ctx = ''cat'', shopping_item.name = ''milk'', shopping_item.status = ''buy''\<rparr>,
      \<lparr>ctx = ''house'', shopping_item.name = ''bread'', shopping_item.status = ''have''\<rparr>,
      \<lparr>ctx = ''house'', shopping_item.name = ''eggs'', shopping_item.status = ''buy''\<rparr>,
      \<lparr>ctx = ''cat'', shopping_item.name = ''bread'', shopping_item.status = ''have''\<rparr>] \<and>
   shopping_cart (checkout ''house'' ''2024-02-01'' ''Ale'' [''Ale'', ''Ferb'', ''Fandi''] ex_session) = []"
proof -
  have p: "0 < cart_total (shopping_cart ex_session)"
    by (simp add: ex_session_def cart_total_def)
  have d: "desc_str (shopping_cart ex_session) = ''milk (100), bread (50)''"
    by (simp add: ex_session_def desc_str_def str_int_def str_nat.simps digit_char_def)
  from checkout_effect[OF p, of "''house''" "''2024-02-01''" "''Ale''" "[''Ale'', ''Ferb'', ''Fandi'']"]
  have e: "checkout ''house'' ''2024-02-01'' ''Ale'' [''Ale'', ''Ferb'', ''Fandi''] ex_session =
           ex_session\<lparr>data := (data ex_session)
                \<lparr>bills := bills (data ex_session) @
                   [\<lparr>ctx = ''house'', bill.date = ''2024-02-01'', amount = sum_list (map snd (shopping_cart ex_session)),
                     category = ''Supermercado'', description = desc_str (shopping_cart ex_session),
                     payer = ''Ale'', debtors = [''Ale'', ''Ferb'', ''Fandi'']\<rparr>],
                 shopping := map (\<lambda>i. if shopping_item.name i \<in> set (map fst (shopping_cart ex_session)) \<and> ctx i = ''house''
                                        then i\<lparr>shopping_item.status := ''have''\<rparr> else i)
                                 (shopping (data ex_session))\<rparr>,
              shopping_cart := []\<rparr>"
    by blast
  show ?thesis
    unfolding e d by (simp add: ex_session_def ex_shopping_def)
qed

subsection \<open>Furniture purchase\<close>

text \<open>
  What the loop of lines 393-395 does, position by position: the items at or before
  the pending one that are equal to it are marked, all the others are as before.
\<close>

lemma mark_bought_prefix:
  assumes "i < length fs"
  shows "k \<le> length fs \<Longrightarrow>
     length (fold (mark_bought_at i) [0..<k] fs) = length fs \<and>
     (\<forall>j < length fs. fold (mark_bought_at i) [0..<k] fs ! j =
        (if j < k \<and> j \<le> i \<and> fs ! j = fs ! i
         then (fs ! j)\<lparr>furniture_item.status := ''bought''\<rparr> else fs ! j))"
proof (induction k)
  case 0
  then show ?case by simp
next
  case (Suc k)
  let ?r = "fold (mark_bought_at i) [0..<k] fs"
  from Suc have len: "length ?r = length fs"
    and nth: "\<And>j. j < length fs \<Longrightarrow> ?r ! j =
        (if j < k \<and> j \<le> i \<and> fs ! j = fs ! i
         then (fs ! j)\<lparr>furniture_item.status := ''bought''\<rparr> else fs ! j)"
    by auto
  from Suc.prems have k: "k < length fs" by simp
  have step: "fold (mark_bought_at i) [0..<Suc k] fs = mark_bought_at i k ?r" by simp
  have rk: "?r ! k = fs ! k" using nth[OF k] by simp
  have ri: "?r ! i = (if i < k then (fs ! i)\<lparr>furniture_item.status := ''bought''\<rparr> else fs ! i)"
    using nth[OF assms] by simp
  show ?case
  proof (cases "k \<le> i")
    case True
    then have "?r ! i = fs ! i" using ri by simp
    with rk have m: "mark_bought_at i k ?r =
        (if fs ! k = fs ! i then ?r[k := (fs ! k)\<lparr>furniture_item.status := ''bought''\<rparr>] else ?r)"
      by (simp add: mark_bought_at_def)
    show ?thesis
      unfolding step m using len nth True k
      by (auto simp: nth_list_update less_Suc_eq)
  next
    case False
    then have ri': "?r ! i = (fs ! i)\<lparr>furniture_item.status := ''bought''\<rparr>" using ri by simp
    have "mark_bought_at i k ?r = ?r"
    proof (cases "?r ! k = ?r ! i")
      case True
      with rk ri' have "fs ! k = (fs ! i)\<lparr>furniture_item.status := ''bought''\<rparr>" by simp
      then have "(fs ! k)\<lparr>furniture_item.status := ''bought''\<rparr> = fs ! k" by simp
      with rk have "?r[k := (?r ! k)\<lparr>furniture_item.status := ''bought''\<rparr>] = ?r"
        by (simp add: list_update_same_conv len k)
      with True show ?thesis by (simp add: mark_bought_at_def)
    next
      case False
      then show ?thesis by (simp add: mark_bought_at_def)
    qed
    then show ?thesis
      unfolding step using len nth False
      by (auto simp: less_Suc_eq)
  qed
qed

lemma mark_bought_nth:
  assumes "i < length fs" and "j < length fs"
  shows "length (mark_bought i fs) = length fs"
    and "mark_bought i fs ! j =
           (if j \<le> i \<and> fs ! j = fs ! i
            then (fs ! j)\<lparr>furniture_item.status := ''bought''\<rparr> else fs ! j)"
  using mark_bought_prefix[OF assms(1), of "length fs"] assms(2)
  by (simp_all add: mark_bought_def)

lemma mark_bought_unique:
  assumes "i < length fs" and "\<forall>j < i. fs ! j \<noteq> fs ! i"
  shows "mark_bought i fs = fs[i := (fs ! i)\<lparr>furniture_item.status := ''bought''\<rparr>]"
proof (rule nth_equalityI)
  show "length (mark_bought i fs) = length (fs[i := (fs ! i)\<lparr>furniture_item.status := ''bought''\<rparr>])"
    using mark_bought_prefix[OF assms(1), of "length fs"] by (simp add: mark_bought_def)
next
  fix j
  assume "j < length (mark_bought i fs)"
  then have j: "j < length fs"
    using mark_bought_prefix[OF assms(1), of "length fs"] by (simp add: mark_bought_def)
  show "mark_bought i fs ! j = fs[i := (fs ! i)\<lparr>furniture_item.status := ''bought''\<rparr>] ! j"
    using mark_bought_nth(2)[OF assms(1) j] assms j
    by (auto simp: nth_list_update le_less)
qed

text \<open>
  What the form does when the pending item is the first of its value in the list: one
  bill is appended and that item alone is marked.
\<close>

lemma furn_checkout_first_of_its_value:
  assumes "temp_furn_buy s = Some i" and "i < length (furniture (data s))"
    and "\<forall>j < i. furniture (data s) ! j \<noteq> furniture (data s) ! i"
  shows "furn_checkout cid today real_price p_payer p_debtors s =
     s\<lparr>data := (data s)
          \<lparr>bills := bills (data s) @
             [\<lparr>ctx = cid, bill.date = today, amount = real_price, category = ''Muebles'',
               description = ''Compra Mueble: '' @ furniture_item.name (furniture (data s) ! i),
               payer = p_payer, debtors = p_debtors\<rparr>],
           furniture := (furniture (data s))
             [i := (furniture (data s) ! i)\<lparr>furniture_item.status := ''bought''\<rparr>]\<rparr>,
        temp_furn_buy := None\<rparr>"
  using assms by (simp add: furn_checkout_def Let_def mark_bought_unique)

subsection \<open>Amounts of the bills\<close>

lemma add_bill_amounts:
  "\<forall>b \<in> set (bills (data s)). 0 \<le> amount b \<Longrightarrow>
   \<forall>b \<in> set (bills (data (add_bill cid b_desc b_cat b_amount b_payer b_debtors b_date s))). 0 \<le> amount b"
  by (simp add: add_bill_def Let_def)

lemma checkout_amounts:
  "\<forall>b \<in> set (bills (data s)). 0 \<le> amount b \<Longrightarrow>
   \<forall>b \<in> set (bills (data (checkout cid today c_payer c_debtors s))). 0 \<le> amount b"
  by (simp add: checkout_def Let_def)

lemma furn_checkout_amounts:
  "0 \<le> real_price \<Longrightarrow> \<forall>b \<in> set (bills (data s)). 0 \<le> amount b \<Longrightarrow>
   \<forall>b \<in> set (bills (data (furn_checkout cid today real_price p_payer p_debtors s))). 0 \<le> amount b"
  by (simp add: furn_checkout_def Let_def split: option.splits)

text \<open>
  C5 does not hold for the furniture form. The form for a manual bill takes its amount
  from a widget with \<^verbatim>\<open>min_value=0\<close> and the checkout form is drawn only for a positive
  total, so both keep the amounts non-negative (the three lemmas above); the furniture
  form takes \<^verbatim>\<open>real_price\<close> from a widget without a lower bound and appends it as it
  is. Here every bill of the state has a non-negative amount before the purchase is
  confirmed with the price -4500, and the bill appended has the amount -4500.
\<close>

theorem furn_checkout_negative_amount:
  "list_all (\<lambda>b. 0 \<le> amount b) (bills (data ex_furn_session)) \<and>
   bills (data (furn_checkout ''house'' ''2024-02-01'' (- 4500) ''Ale'' [''Ale'', ''Ferb'', ''Fandi''] ex_furn_session)) =
     ex_bills @
     [\<lparr>ctx = ''house'', bill.date = ''2024-02-01'', amount = - 4500, category = ''Muebles'',
       description = ''Compra Mueble: Sofa'', payer = ''Ale'',
       debtors = [''Ale'', ''Ferb'', ''Fandi'']\<rparr>] \<and>
   \<not> list_all (\<lambda>b. 0 \<le> amount b)
       (bills (data (furn_checkout ''house'' ''2024-02-01'' (- 4500) ''Ale'' [''Ale'', ''Ferb'', ''Fandi''] ex_furn_session)))"
  by (simp add: furn_checkout_def Let_def ex_furn_session_def ex_bills_def sofa_def)

subsection \<open>The pending purchase in the states of a session\<close>

lemma wishes_iff:
  "i \<in> set (wishes cid fs) \<longleftrightarrow>
   i < length fs \<and> ctx (fs ! i) = cid \<and> furniture_item.status (fs ! i) = ''wish''"
  by (auto simp: wishes_def)

lemma wishes_sorted: "sorted_wrt (<) (wishes cid fs)"
  unfolding wishes_def by (intro sorted_wrt_filter) (rule sorted_wrt_upt)

lemma drawn_buttons_member:
  "i \<in> set (drawn_buttons keys fs js) \<Longrightarrow>
   ''buyf_'' @ furniture_item.name (fs ! i) \<notin> set keys \<and>
   (\<exists>pre post. js = pre @ i # post \<and>
      (\<forall>j \<in> set pre. furniture_item.name (fs ! j) \<noteq> furniture_item.name (fs ! i)))"
proof (induction js arbitrary: keys)
  case Nil
  then show ?case by simp
next
  case (Cons j js)
  let ?key = "''buyf_'' @ furniture_item.name (fs ! j)"
  from Cons.prems have fresh: "?key \<notin> set keys"
    by (auto simp: Let_def split: if_splits)
  with Cons.prems have m: "i = j \<or> i \<in> set (drawn_buttons (?key # keys) fs js)"
    by (simp add: Let_def)
  show ?case
  proof (cases "i = j")
    case True
    with fresh have "j # js = [] @ i # js \<and>
        (\<forall>j' \<in> set []. furniture_item.name (fs ! j') \<noteq> furniture_item.name (fs ! i))" by simp
    with True fresh show ?thesis by blast
  next
    case False
    with m have "i \<in> set (drawn_buttons (?key # keys) fs js)" by simp
    from Cons.IH[OF this] obtain pre post where
      k: "''buyf_'' @ furniture_item.name (fs ! i) \<notin> set (?key # keys)"
      and s: "js = pre @ i # post"
      and p: "\<forall>j' \<in> set pre. furniture_item.name (fs ! j') \<noteq> furniture_item.name (fs ! i)"
      by blast
    from k have kj: "furniture_item.name (fs ! j) \<noteq> furniture_item.name (fs ! i)" by auto
    from s have "j # js = (j # pre) @ i # post" by simp
    moreover from p kj have
      "\<forall>j' \<in> set (j # pre). furniture_item.name (fs ! j') \<noteq> furniture_item.name (fs ! i)" by simp
    ultimately show ?thesis using k by (metis list.set_intros(2))
  qed
qed

lemma drawn_button_first_of_its_value:
  assumes "i \<in> set (drawn_buttons [] fs (wishes cid fs))"
  shows "i < length fs \<and> (\<forall>j < i. fs ! j \<noteq> fs ! i)"
proof -
  from drawn_buttons_member[OF assms] obtain pre post where
    s: "wishes cid fs = pre @ i # post"
    and p: "\<forall>j \<in> set pre. furniture_item.name (fs ! j) \<noteq> furniture_item.name (fs ! i)"
    by blast
  from s have "i \<in> set (wishes cid fs)" by simp
  then have i: "i < length fs" "ctx (fs ! i) = cid" "furniture_item.status (fs ! i) = ''wish''"
    by (simp_all add: wishes_iff)
  from wishes_sorted[of cid fs] s have after: "\<forall>j \<in> set post. i < j"
    by (simp add: sorted_wrt_append)
  have "fs ! j \<noteq> fs ! i" if "j < i" for j
  proof
    assume e: "fs ! j = fs ! i"
    with i that have "j \<in> set (wishes cid fs)" by (simp add: wishes_iff)
    with s have "j \<in> set pre \<or> j = i \<or> j \<in> set post" by auto
    with that after have "j \<in> set pre" by auto
    with p e show False by auto
  qed
  with i(1) show ?thesis by blast
qed

lemma begin_furniture_purchase_Some:
  assumes "begin_furniture_purchase cid i s = Some s'"
  shows "s' = s\<lparr>temp_furn_buy := Some i\<rparr>" and "pending_first s'"
proof -
  from assms have d: "i \<in> set (drawn_buttons [] (furniture (data s)) (wishes cid (furniture (data s))))"
    and s': "s' = s\<lparr>temp_furn_buy := Some i\<rparr>"
    by (auto simp: begin_furniture_purchase_def split: if_splits)
  show "s' = s\<lparr>temp_furn_buy := Some i\<rparr>" by (rule s')
  from drawn_button_first_of_its_value[OF d] show "pending_first s'"
    by (simp add: pending_first_def s')
qed

lemma reachable_pending_first: "reachable s \<Longrightarrow> pending_first s"
proof (induction rule: reachable.induct)
  case (reach_load d)
  show ?case by (simp add: pending_first_def)
next
  case (reach_add_bill s cid b_desc b_cat b_amount b_payer b_debtors b_date)
  then show ?case by (auto simp: pending_first_def add_bill_def Let_def split: option.splits)
next
  case (reach_remove s item s')
  then show ?case
    by (auto simp: pending_first_def remove_shopping_item_def split: sum.splits option.splits)
next
  case (reach_checkout s cid today c_payer c_debtors)
  then show ?case by (auto simp: pending_first_def checkout_def Let_def split: option.splits)
next
  case (reach_add_furn s cid f_name f_est f_date)
  then show ?case
    by (auto simp: pending_first_def add_furn_def Let_def nth_append split: option.splits)
next
  case (reach_begin s cid i s')
  then show ?case by (simp add: begin_furniture_purchase_Some(2))
next
  case (reach_furn_checkout s cid today real_price p_payer p_debtors)
  then show ?case
    by (simp add: pending_first_def furn_checkout_def Let_def split: option.splits)
next
  case (reach_other s ts sh c)
  then show ?case by (auto simp: pending_first_def split: option.splits)
qed

text \<open>
  C2. In every state the page can reach, when the furniture confirm operation is
  applied to the pending item X, the item at the position of X, and no other, has its
  status set to bought: the furniture list afterwards is the list before with that one
  entry updated, so an item equal in value to X keeps its status. One bill is
  appended, with the entered real price as amount, category Muebles and a description
  that ends with the name of X; the pending purchase is cleared, and nothing else
  changes. (The loop compares with \<^verbatim>\<open>==\<close>; an equal item before X would be marked
  too, see \<open>mark_bought_nth\<close>, but the button of X is not drawn when such an item
  exists, and an equal item after X no longer equals X once X is marked.)
\<close>

theorem furn_checkout_marks_selected_only:
  assumes "reachable s" and "temp_furn_buy s = Some i"
  shows "i < length (furniture (data s)) \<and>
         furn_checkout cid today real_price p_payer p_debtors s =
           s\<lparr>data := (data s)
                \<lparr>bills := bills (data s) @
                   [\<lparr>ctx = cid, bill.date = today, amount = real_price, category = ''Muebles'',
                     description = ''Compra Mueble: '' @ furniture_item.name (furniture (data s) ! i),
                     payer = p_payer, debtors = p_debtors\<rparr>],
                 furniture := (furniture (data s))
                   [i := (furniture (data s) ! i)\<lparr>furniture_item.status := ''bought''\<rparr>]\<rparr>,
              temp_furn_buy := None\<rparr>"
proof -
  from reachable_pending_first[OF assms(1)] assms(2)
  have i: "i < length (furniture (data s))"
    and f: "\<forall>j < i. furniture (data s) ! j \<noteq> furniture (data s) ! i"
    by (simp_all add: pending_first_def)
  from furn_checkout_first_of_its_value[OF assms(2) i f] i show ?thesis by simp
qed

lemma second_twin_has_no_button:
  "begin_furniture_purchase ''house'' 1 ex_twin_session = None"
  by (simp add: begin_furniture_purchase_def ex_twin_session_def twin_document_def wishes_def sofa_def)

theorem furn_checkout_marks_selected_only_witness:
  "begin_furniture_purchase ''house'' 0 ex_twin_session = Some (ex_twin_session\<lparr>temp_furn_buy := Some 0\<rparr>) \<and>
   map furniture_item.status (furniture (data ex_twin_session)) = [''wish'', ''wish''] \<and>
   furniture (data ex_twin_session) ! 0 = furniture (data ex_twin_session) ! 1 \<and>
   map furniture_item.status
     (furniture (data (furn_checkout ''cat'' ''2024-02-01'' 4500 ''Ale'' [''Ale'', ''Fandi'']
        (ex_twin_session\<lparr>temp_furn_buy := Some 0\<rparr>)))) = [''bought'', ''wish''] \<and>
   bills (data (furn_checkout ''cat'' ''2024-02-01'' 4500 ''Ale'' [''Ale'', ''Fandi'']
        (ex_twin_session\<lparr>temp_furn_buy := Some 0\<rparr>))) =
     ex_bills @
     [\<lparr>ctx = ''cat'', bill.date = ''2024-02-01'', amount = 4500, category = ''Muebles'',
       description = ''Compra Mueble: Sofa'', payer = ''Ale'', debtors = [''Ale'', ''Fandi'']\<rparr>]"
proof -
  let ?s1 = "ex_twin_session\<lparr>temp_furn_buy := Some 0\<rparr>"
  have b: "begin_furniture_purchase ''house'' 0 ex_twin_session = Some ?s1"
    by (simp add: begin_furniture_purchase_def ex_twin_session_def twin_document_def wishes_def sofa_def)
  have "reachable ex_twin_session" unfolding ex_twin_session_def by (rule reach_load)
  then have r: "reachable ?s1" using b by (rule reach_begin)
  have t: "temp_furn_buy ?s1 = Some 0" by simp
  from furn_checkout_marks_selected_only[OF r t, of "''cat''" "''2024-02-01''" 4500 "''Ale''" "[''Ale'', ''Fandi'']"]
  have e: "furn_checkout ''cat'' ''2024-02-01'' 4500 ''Ale'' [''Ale'', ''Fandi''] ?s1 =
           ?s1\<lparr>data := (data ?s1)
                \<lparr>bills := bills (data ?s1) @
                   [\<lparr>ctx = ''cat'', bill.date = ''2024-02-01'', amount = 4500, category = ''Muebles'',
                     description = ''Compra Mueble: '' @ furniture_item.name (furniture (data ?s1) ! 0),
                     payer = ''Ale'', debtors = [''Ale'', ''Fandi'']\<rparr>],
                 furniture := (furniture (data ?s1))
                   [0 := (furniture (data ?s1) ! 0)\<lparr>furniture_item.status := ''bought''\<rparr>]\<rparr>,
              temp_furn_buy := None\<rparr>"
    by blast
  show ?thesis
    unfolding e using b by (simp add: ex_twin_session_def twin_document_def sofa_def)
qed

end
